theory Spec2Isabelle
  imports Complex_Main "HOL-Library.Word" "HOL-Library.List_Lexorder"
begin

section \<open>Data model (types.ts)\<close>

text \<open>
  A JavaScript string is a sequence of UTF-16 code units; \<open>length\<close>, \<open>includes\<close>,
  \<open>substring\<close> and \<open>charCodeAt\<close> all count code units. Record keys of an IndexedDB object
  store are compared code unit by code unit, which is the lexicographic order on lists.
\<close>

type_synonym jsstring = "16 word list"

text \<open>An ASCII literal as a JavaScript string.\<close>

definition js :: "string \<Rightarrow> jsstring" where
  "js s = map (\<lambda>c. word_of_nat (of_char c)) s"

datatype category = userinfo | hikari_info | shared_event

datatype memtype = short_term | long_term

datatype msource = conversation | offline_event | system

text \<open>
  \<open>Omit<MemoryFact, 'id' | 'timestamp'>\<close> is the argument of \<open>addMemoryFact\<close>;
  \<open>MemoryFact\<close> adds the two generated fields. A timestamp is kept as the number of
  milliseconds that \<open>new Date(timestamp).getTime()\<close> yields for the ISO string.
\<close>

record MemoryFactInput =
  factText :: jsstring
  category :: category
  originalEventDate :: "jsstring option"
  mtype :: memtype
  importance :: "real option"
  source :: "msource option"

record MemoryFact = MemoryFactInput +
  factId :: jsstring
  timestamp :: int

text \<open>\<open>Partial<MemoryFact>\<close>: every field may be absent.\<close>

record MemoryFactPartial =
  p_factId :: "jsstring option"
  p_factText :: "jsstring option"
  p_category :: "category option"
  p_timestamp :: "int option"
  p_originalEventDate :: "jsstring option"
  p_mtype :: "memtype option"
  p_importance :: "real option"
  p_source :: "msource option"

datatype error = ConstraintError

section \<open>The object store (memoryManager.ts)\<close>

text \<open>
  The object store \<open>facts\<close> has key path \<open>id\<close>: it holds at most one record per key and
  \<open>getAll\<close> returns the records in key order. It is modelled by the list of its records.
  \<open>add\<close> rejects a record whose key is present, \<open>put\<close> overwrites the record under the
  key, \<open>delete\<close> removes it. The rejected \<open>add\<close> is the only storage failure that is
  modelled: reads, \<open>put\<close> and \<open>delete\<close> always succeed.
\<close>

definition storeGet :: "('r \<Rightarrow> jsstring) \<Rightarrow> jsstring \<Rightarrow> 'r list \<Rightarrow> 'r option" where
  "storeGet key k rs = find (\<lambda>r. key r = k) rs"

definition storeAdd :: "('r \<Rightarrow> jsstring) \<Rightarrow> 'r \<Rightarrow> 'r list \<Rightarrow> error + 'r list" where
  "storeAdd key r rs =
     (if list_ex (\<lambda>r'. key r' = key r) rs then Inl ConstraintError
      else Inr (insort_key key r rs))"

definition storePut :: "('r \<Rightarrow> jsstring) \<Rightarrow> 'r \<Rightarrow> 'r list \<Rightarrow> 'r list" where
  "storePut key r rs =
     (if list_ex (\<lambda>r'. key r' = key r) rs
      then map (\<lambda>r'. if key r' = key r then r else r') rs
      else insort_key key r rs)"

definition storeDelete :: "('r \<Rightarrow> jsstring) \<Rightarrow> jsstring \<Rightarrow> 'r list \<Rightarrow> 'r list" where
  "storeDelete key k rs = filter (\<lambda>r. key r \<noteq> k) rs"

text \<open>
  \<open>addMemoryFact\<close>: the id is built from \<open>Date.now()\<close> and \<open>Math.random()\<close>, the timestamp
  from \<open>new Date()\<close>; both come from the environment and are passed in as \<open>stamp\<close>.
\<close>

definition addMemoryFact ::
  "jsstring \<times> int \<Rightarrow> MemoryFactInput \<Rightarrow> MemoryFact list \<Rightarrow> error + (MemoryFact \<times> MemoryFact list)" where
  "addMemoryFact stamp inp s =
     (let newFact = \<lparr> factText = factText inp, category = category inp,
                       originalEventDate = originalEventDate inp, mtype = mtype inp,
                       importance = importance inp, source = source inp,
                       factId = fst stamp, timestamp = snd stamp \<rparr>
      in case storeAdd factId newFact s of
           Inl e \<Rightarrow> Inl e
         | Inr s' \<Rightarrow> Inr (newFact, s'))"

text \<open>
  The comparator \<open>new Date(b.timestamp) - new Date(a.timestamp)\<close> sorts newest first;
  \<open>Array.prototype.sort\<close> is stable, so records of equal timestamp stay in key order.
\<close>

definition byNewest :: "MemoryFact list \<Rightarrow> MemoryFact list" where
  "byNewest fs = sort_key (\<lambda>f. - timestamp f) fs"

definition getAllMemoryFacts :: "MemoryFact list \<Rightarrow> MemoryFact list" where
  "getAllMemoryFacts s = byNewest s"

definition getShortTermMemories :: "MemoryFact list \<Rightarrow> MemoryFact list" where
  "getShortTermMemories s = byNewest (filter (\<lambda>f. mtype f = short_term) s)"

definition getLongTermMemories :: "MemoryFact list \<Rightarrow> MemoryFact list" where
  "getLongTermMemories s = byNewest (filter (\<lambda>f. mtype f = long_term) s)"

definition promoteToLongTerm :: "jsstring \<Rightarrow> MemoryFact list \<Rightarrow> MemoryFact list" where
  "promoteToLongTerm k s =
     (case storeGet factId k s of
        None \<Rightarrow> s
      | Some f \<Rightarrow>
          if mtype f = short_term then storePut factId (f\<lparr> mtype := long_term \<rparr>) s else s)"

definition batchPromoteToLongTerm :: "jsstring list \<Rightarrow> MemoryFact list \<Rightarrow> MemoryFact list" where
  "batchPromoteToLongTerm ks s = fold promoteToLongTerm ks s"

text \<open>\<open>{ ...fact, ...updates }\<close>: a field of \<open>updates\<close> that is present wins.\<close>

definition mergeUpdates :: "MemoryFact \<Rightarrow> MemoryFactPartial \<Rightarrow> MemoryFact" where
  "mergeUpdates f u =
     \<lparr> factText = (case p_factText u of None \<Rightarrow> factText f | Some v \<Rightarrow> v),
       category = (case p_category u of None \<Rightarrow> category f | Some v \<Rightarrow> v),
       originalEventDate =
         (case p_originalEventDate u of None \<Rightarrow> originalEventDate f | Some v \<Rightarrow> Some v),
       mtype = (case p_mtype u of None \<Rightarrow> mtype f | Some v \<Rightarrow> v),
       importance = (case p_importance u of None \<Rightarrow> importance f | Some v \<Rightarrow> Some v),
       source = (case p_source u of None \<Rightarrow> source f | Some v \<Rightarrow> Some v),
       factId = (case p_factId u of None \<Rightarrow> factId f | Some v \<Rightarrow> v),
       timestamp = (case p_timestamp u of None \<Rightarrow> timestamp f | Some v \<Rightarrow> v) \<rparr>"

definition updateMemoryFact ::
  "jsstring \<Rightarrow> MemoryFactPartial \<Rightarrow> MemoryFact list \<Rightarrow> MemoryFact list" where
  "updateMemoryFact k u s =
     (case storeGet factId k s of
        None \<Rightarrow> s
      | Some f \<Rightarrow> storePut factId (mergeUpdates f u) s)"

definition deleteMemoryFact :: "jsstring \<Rightarrow> MemoryFact list \<Rightarrow> MemoryFact list" where
  "deleteMemoryFact k s = storeDelete factId k s"

section \<open>Deduplication (memoryProcessor.ts)\<close>

text \<open>\<open>hay.includes(needle)\<close>: the needle occurs at some offset of the haystack.\<close>

definition jsIncludes :: "jsstring \<Rightarrow> jsstring \<Rightarrow> bool" where
  "jsIncludes hay needle =
     list_ex (\<lambda>i. take (length needle) (drop i hay) = needle) [0..<Suc (length hay)]"

definition lengthDiff :: "jsstring \<Rightarrow> jsstring \<Rightarrow> int" where
  "lengthDiff a b = \<bar>int (length a) - int (length b)\<bar>"

definition similarTo :: "jsstring \<Rightarrow> MemoryFact \<Rightarrow> bool" where
  "similarTo cand m =
     (if factText m = cand then True
      else if jsIncludes (factText m) cand \<or> jsIncludes cand (factText m)
           then lengthDiff (factText m) cand \<le> 3
      else False)"

definition isDuplicateMemory :: "jsstring \<Rightarrow> MemoryFact list \<Rightarrow> bool" where
  "isDuplicateMemory cand s =
     (let shortTermMemories = getShortTermMemories s;
          longTermMemories = getLongTermMemories s;
          allMemories = shortTermMemories @ longTermMemories
      in list_ex (similarTo cand) allMemories)"

section \<open>Promotion and consolidation (memoryProcessor.ts, topicGenerator.ts)\<close>

text \<open>
  The language model is an external collaborator. Each function below takes the
  model's parsed answer as an argument: \<open>None\<close> when the call or \<open>JSON.parse\<close> throws
  (the \<open>catch\<close> branch runs), \<open>Some\<close> of the parsed field otherwise (an absent field is
  replaced by the empty list by the source's \<open>|| []\<close>).

  The loop over the kept indices: \<open>keepIndices.has(i + 1)\<close> for the index \<open>i\<close> of each
  short-term fact, counting the promotions.
\<close>

fun promoteKept ::
  "nat list \<Rightarrow> nat \<Rightarrow> MemoryFact list \<Rightarrow> nat \<Rightarrow> MemoryFact list \<Rightarrow> nat \<times> MemoryFact list" where
  "promoteKept keepIndices i [] promoted s = (promoted, s)"
| "promoteKept keepIndices i (m # ms) promoted s =
     (if Suc i \<in> set keepIndices
      then promoteKept keepIndices (Suc i) ms (Suc promoted) (promoteToLongTerm (factId m) s)
      else promoteKept keepIndices (Suc i) ms promoted s)"

text \<open>
  \<open>Math.floor(shortTermMemories.length * 0.4)\<close> is computed on doubles; for every
  length below \<open>2^50\<close> it is the integer quotient written here.
\<close>

definition keepCountOf :: "nat \<Rightarrow> nat" where
  "keepCountOf n = (n * 4) div 10"

record OrganizeResult =
  promoted :: nat
  removed :: nat

definition organizeMemories ::
  "nat list option \<Rightarrow> MemoryFact list \<Rightarrow> OrganizeResult \<times> MemoryFact list" where
  "organizeMemories keepAnswer s =
     (let shortTermMemories = getShortTermMemories s in
      if length shortTermMemories < 5 then (\<lparr> promoted = 0, removed = 0 \<rparr>, s)
      else case keepAnswer of
             Some keepIndices \<Rightarrow>
               (let (n, s') = promoteKept keepIndices 0 shortTermMemories 0 s
                in (\<lparr> promoted = n, removed = length shortTermMemories - n \<rparr>, s'))
           | None \<Rightarrow>
               (let keepCount = keepCountOf (length shortTermMemories);
                    s' = fold (\<lambda>m. promoteToLongTerm (factId m)) (take keepCount shortTermMemories) s
                in (\<lparr> promoted = keepCount, removed = length shortTermMemories - keepCount \<rparr>, s')))"

text \<open>
  \<open>summarizeLongTermMemories\<close> adds one fact per summary. The \<open>n\<close>-th call of
  \<open>addMemoryFact\<close> draws its id and timestamp from \<open>stamps n\<close>. A rejected \<open>add\<close> throws
  inside the \<open>try\<close>: the facts written so far stay, and the function reports 0.
\<close>

fun addSummaries ::
  "(nat \<Rightarrow> jsstring \<times> int) \<Rightarrow> nat \<Rightarrow> jsstring list \<Rightarrow> MemoryFact list
     \<Rightarrow> (error \<times> MemoryFact list) + MemoryFact list" where
  "addSummaries stamps n [] s = Inr s"
| "addSummaries stamps n (summary # rest) s =
     (case addMemoryFact (stamps n)
             \<lparr> factText = summary, category = shared_event, originalEventDate = None,
               mtype = long_term, importance = Some 0.8, source = Some system \<rparr> s of
        Inl e \<Rightarrow> Inl (e, s)
      | Inr (f, s') \<Rightarrow> addSummaries stamps (Suc n) rest s')"

definition summarizeLongTermMemories ::
  "(nat \<Rightarrow> jsstring \<times> int) \<Rightarrow> jsstring list option \<Rightarrow> MemoryFact list \<Rightarrow> MemoryFact list
     \<Rightarrow> (nat \<times> jsstring list) \<times> MemoryFact list" where
  "summarizeLongTermMemories stamps answer longTermMemories s =
     (if length longTermMemories < 8 then ((0, []), s)
      else case answer of
             None \<Rightarrow> ((0, []), s)
           | Some summaries \<Rightarrow>
               (case addSummaries stamps 0 summaries s of
                  Inl (e, s') \<Rightarrow> ((0, []), s')
                | Inr s' \<Rightarrow> ((length summaries, summaries), s')))"

record ConsolidateResult =
  c_promoted :: nat
  summarized :: nat

definition organizeAndSummarizeLongTerm ::
  "nat list option \<Rightarrow> jsstring list option \<Rightarrow> (nat \<Rightarrow> jsstring \<times> int) \<Rightarrow> MemoryFact list
     \<Rightarrow> ConsolidateResult \<times> MemoryFact list" where
  "organizeAndSummarizeLongTerm keepAnswer sumAnswer stamps s =
     (let longTermMemories = getLongTermMemories s;
          (r, s1) = organizeMemories keepAnswer s
      in if length longTermMemories \<ge> 8
         then (let (result, s2) = summarizeLongTermMemories stamps sumAnswer longTermMemories s1;
                   n = fst result
               in if n > 0
                  then (\<lparr> c_promoted = promoted r, summarized = n \<rparr>,
                        fold (\<lambda>mem. deleteMemoryFact (factId mem)) longTermMemories s2)
                  else (\<lparr> c_promoted = promoted r, summarized = n \<rparr>, s2))
         else (\<lparr> c_promoted = promoted r, summarized = 0 \<rparr>, s1))"

section \<open>Batch extraction (memoryProcessor.ts)\<close>

record Message =
  msgId :: jsstring
  role :: jsstring
  content :: jsstring
  msgTimestamp :: jsstring
  imageUrl :: "jsstring option"

text \<open>A string is truthy when it is present and not empty.\<close>

definition truthy :: "jsstring option \<Rightarrow> bool" where
  "truthy v = (case v of None \<Rightarrow> False | Some x \<Rightarrow> x \<noteq> [])"

definition isReply :: "Message \<Rightarrow> bool" where
  "isReply nextMsg = (role nextMsg = js ''assistant'' \<and> content nextMsg \<noteq> [] \<and> \<not> truthy (imageUrl nextMsg))"

text \<open>The inner \<open>for\<close> loop: the first index from \<open>start\<close> on that holds a reply.\<close>

definition findReply :: "Message list \<Rightarrow> nat \<Rightarrow> nat option" where
  "findReply messages start = find (\<lambda>j. isReply (messages ! j)) [start..<length messages]"

lemma findReply_bounds:
  "findReply messages start = Some j \<Longrightarrow> start \<le> j \<and> j < length messages"
  unfolding findReply_def by (auto simp: find_Some_iff)

text \<open>
  The outer \<open>while\<close> loop. After a pair is found the source sets \<open>i = j + 1\<close>, leaves the
  inner loop and then runs the \<open>i++\<close> at the end of the body as well.
\<close>

function pairLoop ::
  "Message list \<Rightarrow> nat \<Rightarrow> (jsstring \<times> jsstring) list \<Rightarrow> (jsstring \<times> jsstring) list" where
  "pairLoop messages i conversationPairs =
     (if i < length messages then
        (let msg = messages ! i in
         if role msg = js ''user'' \<and> content msg \<noteq> [] then
           (case findReply messages (i + 1) of
              Some j \<Rightarrow>
                pairLoop messages (j + 1 + 1)
                  (conversationPairs @ [(content msg, content (messages ! j))])
            | None \<Rightarrow> pairLoop messages (i + 1) conversationPairs)
         else pairLoop messages (i + 1) conversationPairs)
      else conversationPairs)"
  by pat_completeness auto
termination
proof (relation "measure (\<lambda>(messages, i, ps). length messages - i)")
  show "wf (measure (\<lambda>(messages, i, ps). length messages - i))"
    by simp
next
  fix messages :: "Message list" and i :: nat and conversationPairs :: "(jsstring \<times> jsstring) list"
    and msg :: Message and j :: nat
  assume "i < length messages" and "findReply messages (i + 1) = Some j"
  then show "((messages, j + 1 + 1, conversationPairs @ [(content msg, content (messages ! j))]),
              messages, i, conversationPairs)
             \<in> measure (\<lambda>(messages, i, ps). length messages - i)"
    using findReply_bounds [of messages "i + 1" j] by (simp, arith)
qed simp_all

declare pairLoop.simps [simp del]

text \<open>One candidate of the model's answer; every field may be missing.\<close>

record Candidate =
  cand_fact :: "jsstring option"
  cand_category :: "category option"
  cand_importance :: "real option"

text \<open>
  The loop over the candidates: one \<open>addMemoryFact\<close> per candidate with a truthy
  \<open>fact\<close>; \<open>mem.importance || 0.7\<close> replaces an absent or zero importance.
\<close>

fun addExtracted ::
  "(nat \<Rightarrow> jsstring \<times> int) \<Rightarrow> nat \<Rightarrow> Candidate list \<Rightarrow> MemoryFact list \<Rightarrow> MemoryFact list
     \<Rightarrow> (error \<times> MemoryFact list) + (MemoryFact list \<times> MemoryFact list)" where
  "addExtracted stamps n [] addedMemories s = Inr (addedMemories, s)"
| "addExtracted stamps n (mem # rest) addedMemories s =
     (if truthy (cand_fact mem) then
        (case addMemoryFact (stamps n)
                \<lparr> factText = the (cand_fact mem),
                  category = (case cand_category mem of None \<Rightarrow> shared_event | Some c \<Rightarrow> c),
                  originalEventDate = None,
                  mtype = long_term,
                  importance = Some (case cand_importance mem of
                                       None \<Rightarrow> 0.7
                                     | Some x \<Rightarrow> if x = 0 then 0.7 else x),
                  source = Some system \<rparr> s of
           Inl e \<Rightarrow> Inl (e, s)
         | Inr (newMemory, s') \<Rightarrow>
             addExtracted stamps (Suc n) rest (addedMemories @ [newMemory]) s')
      else addExtracted stamps n rest addedMemories s)"

text \<open>
  Without a message or without a conversation pair the source returns the number
  \<open>0\<close> before the model is asked; this is the result with count 0 and no memories.
\<close>

record ExtractResult =
  count :: nat
  memories :: "MemoryFact list"

definition extractMemoriesFromHistory ::
  "(nat \<Rightarrow> jsstring \<times> int) \<Rightarrow> Candidate list option \<Rightarrow> Message list \<Rightarrow> MemoryFact list
     \<Rightarrow> ExtractResult \<times> MemoryFact list" where
  "extractMemoriesFromHistory stamps answer messages s =
     (if length messages = 0 then (\<lparr> count = 0, memories = [] \<rparr>, s)
      else let conversationPairs = pairLoop messages 0 [] in
        if length conversationPairs = 0 then (\<lparr> count = 0, memories = [] \<rparr>, s)
        else case answer of
               None \<Rightarrow> (\<lparr> count = 0, memories = [] \<rparr>, s)
             | Some mems \<Rightarrow>
                 (case addExtracted stamps 0 mems [] s of
                    Inl (e, s') \<Rightarrow> (\<lparr> count = 0, memories = [] \<rparr>, s')
                  | Inr (addedMemories, s') \<Rightarrow>
                      (\<lparr> count = length addedMemories, memories = addedMemories \<rparr>, s')))"

section \<open>The sticker cache (stickerCache.ts)\<close>

datatype stickerType = hikari_emotion | food_item | landmark | meme

record StickerCache =
  stickerId :: jsstring
  prompt :: jsstring
  stype :: stickerType
  detail :: jsstring
  imageData :: jsstring
  embedding :: "real list"
  createdAt :: jsstring
  usageCount :: nat

text \<open>
  \<open>hashString\<close>: \<open>(hash << 5) - hash + char\<close> followed by \<open>hash & hash\<close> keeps the
  low 32 bits as a signed integer, which is arithmetic on \<open>32 word\<close>; \<open>Math.abs\<close> of
  the signed reading is returned.
\<close>

definition hashStep :: "32 word \<Rightarrow> 16 word \<Rightarrow> 32 word" where
  "hashStep hash char = (push_bit 5 hash - hash) + ucast char"

definition hashString :: "jsstring \<Rightarrow> nat" where
  "hashString str = nat \<bar>sint (foldl hashStep 0 str)\<bar>"

text \<open>
  \<open>features.set(gram, (features.get(gram) || 0) + 1)\<close> on a \<open>Map\<close>, which iterates in
  the order of first insertion.
\<close>

definition bump :: "(jsstring \<times> nat) list \<Rightarrow> jsstring \<Rightarrow> (jsstring \<times> nat) list" where
  "bump features gram =
     (case map_of features gram of
        None \<Rightarrow> features @ [(gram, 1)]
      | Some c \<Rightarrow> map (\<lambda>(g, n). if g = gram then (g, c + 1) else (g, n)) features)"

text \<open>
  The bigram loop runs for \<open>i = 0, \<dots>, text.length - 2\<close> and not at all for a text of
  fewer than two code units; \<open>substring(i, i + 2)\<close> is taken from the lower-cased text.
  \<open>String.prototype.toLowerCase\<close> is a built-in of the language and is a parameter here.
\<close>

definition bigramFeatures :: "(jsstring \<Rightarrow> jsstring) \<Rightarrow> jsstring \<Rightarrow> (jsstring \<times> nat) list" where
  "bigramFeatures toLowerCase text =
     foldl (\<lambda>features i. bump features (take 2 (drop i (toLowerCase text))))
       [] [0..<length text - 1]"

definition featureVector :: "(jsstring \<times> nat) list \<Rightarrow> nat list" where
  "featureVector features =
     foldl (\<lambda>vector (gram, count).
              vector[hashString gram mod 256 := vector ! (hashString gram mod 256) + count])
       (replicate 256 0) features"

definition computeTextEmbedding :: "(jsstring \<Rightarrow> jsstring) \<Rightarrow> jsstring \<Rightarrow> real list" where
  "computeTextEmbedding toLowerCase text =
     (let vector = featureVector (bigramFeatures toLowerCase text);
          magnitude = sqrt (foldl (\<lambda>sum val. sum + real val * real val) 0 vector)
      in if magnitude > 0 then map (\<lambda>v. real v / magnitude) vector else map real vector)"

definition cosineSimilarity :: "real list \<Rightarrow> real list \<Rightarrow> real" where
  "cosineSimilarity vec1 vec2 =
     (if length vec1 \<noteq> length vec2 then 0
      else let (dotProduct, mag1, mag2) =
                 foldl (\<lambda>(d, m1, m2) i.
                          (d + vec1 ! i * vec2 ! i, m1 + vec1 ! i * vec1 ! i, m2 + vec2 ! i * vec2 ! i))
                   (0, 0, 0) [0..<length vec1]
           in if sqrt mag1 = 0 \<or> sqrt mag2 = 0 then 0
              else dotProduct / (sqrt mag1 * sqrt mag2))"

definition saveSticker ::
  "(jsstring \<Rightarrow> jsstring) \<Rightarrow> jsstring \<times> jsstring \<Rightarrow> jsstring \<Rightarrow> stickerType \<Rightarrow> jsstring \<Rightarrow> jsstring
     \<Rightarrow> StickerCache list \<Rightarrow> error + (StickerCache \<times> StickerCache list)" where
  "saveSticker toLowerCase stamp prompt' type' detail' imageData' db =
     (let embedding' = computeTextEmbedding toLowerCase (prompt' @ js '' '' @ detail');
          sticker = \<lparr> stickerId = fst stamp, prompt = prompt', stype = type', detail = detail',
                      imageData = imageData', embedding = embedding', createdAt = snd stamp,
                      usageCount = 1 \<rparr>
      in case storeAdd stickerId sticker db of
           Inl e \<Rightarrow> Inl e
         | Inr db' \<Rightarrow> Inr (sticker, db'))"

definition updateUsageCount :: "jsstring \<Rightarrow> StickerCache list \<Rightarrow> StickerCache list" where
  "updateUsageCount k db =
     (case storeGet stickerId k db of
        None \<Rightarrow> db
      | Some sticker \<Rightarrow> storePut stickerId (sticker\<lparr> usageCount := usageCount sticker + 1 \<rparr>) db)"

text \<open>The scan for the best match, with its two running variables.\<close>

definition bestOf :: "real list \<Rightarrow> real \<Rightarrow> StickerCache list \<Rightarrow> StickerCache option \<times> real" where
  "bestOf queryEmbedding threshold stickers =
     foldl (\<lambda>(bestMatch, bestSimilarity) sticker.
              let similarity = cosineSimilarity queryEmbedding (embedding sticker)
              in if similarity > bestSimilarity \<and> similarity \<ge> threshold
                 then (Some sticker, similarity)
                 else (bestMatch, bestSimilarity))
       (None, 0) stickers"

text \<open>
  \<open>findSimilarSticker\<close> resolves with the best match and starts \<open>updateUsageCount\<close>
  without waiting for it; the cache after that update has run is returned with the match.
\<close>

definition findSimilarSticker ::
  "(jsstring \<Rightarrow> jsstring) \<Rightarrow> stickerType \<Rightarrow> jsstring \<Rightarrow> real \<Rightarrow> StickerCache list
     \<Rightarrow> StickerCache option \<times> StickerCache list" where
  "findSimilarSticker toLowerCase type' detail' threshold db =
     (let queryEmbedding = computeTextEmbedding toLowerCase detail';
          stickers = filter (\<lambda>s. stype s = type') db;
          bestMatch = fst (bestOf queryEmbedding threshold stickers)
      in case bestMatch of
           None \<Rightarrow> (None, db)
         | Some m \<Rightarrow> (Some m, updateUsageCount (stickerId m) db))"

text \<open>
  On a string of ASCII characters \<open>toLowerCase\<close> adds 32 to the code units of \<open>A\<close> to
  \<open>Z\<close> and keeps every other one.
\<close>

definition asciiLower :: "jsstring \<Rightarrow> jsstring" where
  "asciiLower text = map (\<lambda>c. if 0x41 \<le> c \<and> c \<le> 0x5A then c + 0x20 else c) text"

section \<open>The embedding in double precision\<close>

text \<open>
  The sticker cache above computes on real numbers. The numbers of the language are
  IEEE 754 doubles: a finite double, one of the two infinities or \<open>NaN\<close>. The
  negative zero is not told apart from zero: the operands of \<open>computeTextEmbedding\<close>
  are never negative, so that it does not arise.
\<close>

datatype jsnum = Num real | PosInfinity | NegInfinity | NaN

text \<open>
  Every operation returns the double nearest to the exact result, a tie going to the
  even significand; \<open>roundEven\<close> is this rounding to an integer. \<open>double x\<close> is the
  double nearest to the real number \<open>x\<close>: with \<open>e\<close> the binary exponent of \<open>x\<close>,
  and \<open>- 1022\<close> for a subnormal \<open>x\<close>, the significand \<open>\<bar>x\<bar> / 2 powr (e - 52)\<close> is
  rounded to an integer, and a result whose magnitude reaches \<open>2 powr 1024\<close> is an
  infinity.
\<close>

definition roundEven :: "real \<Rightarrow> int" where
  "roundEven y =
     (let f = \<lfloor>y\<rfloor> in
      if y - of_int f < 1 / 2 then f
      else if 1 / 2 < y - of_int f then f + 1
      else if even f then f else f + 1)"

definition double :: "real \<Rightarrow> jsnum" where
  "double x =
     (if x = 0 then Num 0
      else let e = max \<lfloor>log 2 \<bar>x\<bar>\<rfloor> (- 1022);
               r = of_int (roundEven (\<bar>x\<bar> * 2 powr (52 - of_int e))) * 2 powr (of_int e - 52)
           in if 2 powr 1024 \<le> r then (if 0 < x then PosInfinity else NegInfinity)
              else Num (sgn x * r))"

text \<open>
  The operations \<open>+\<close>, \<open>*\<close>, \<open>Math.sqrt\<close>, \<open>/\<close> and \<open>>\<close> of the language on these
  numbers. \<open>Math.sqrt\<close> is the square root of IEEE 754, which is rounded as the
  arithmetic operations are.
\<close>

fun jsneg :: "jsnum \<Rightarrow> jsnum" where
  "jsneg (Num a) = Num (- a)"
| "jsneg PosInfinity = NegInfinity"
| "jsneg NegInfinity = PosInfinity"
| "jsneg NaN = NaN"

fun jsadd :: "jsnum \<Rightarrow> jsnum \<Rightarrow> jsnum" where
  "jsadd (Num a) (Num b) = double (a + b)"
| "jsadd NaN y = NaN"
| "jsadd x NaN = NaN"
| "jsadd PosInfinity NegInfinity = NaN"
| "jsadd NegInfinity PosInfinity = NaN"
| "jsadd (Num a) y = y"
| "jsadd x y = x"

fun jsmul :: "jsnum \<Rightarrow> jsnum \<Rightarrow> jsnum" where
  "jsmul (Num a) (Num b) = double (a * b)"
| "jsmul NaN y = NaN"
| "jsmul x NaN = NaN"
| "jsmul (Num a) y = (if a = 0 then NaN else if 0 < a then y else jsneg y)"
| "jsmul x (Num b) = (if b = 0 then NaN else if 0 < b then x else jsneg x)"
| "jsmul PosInfinity y = y"
| "jsmul NegInfinity y = jsneg y"

fun jssqrt :: "jsnum \<Rightarrow> jsnum" where
  "jssqrt (Num a) = (if a < 0 then NaN else double (sqrt a))"
| "jssqrt PosInfinity = PosInfinity"
| "jssqrt NegInfinity = NaN"
| "jssqrt NaN = NaN"

fun jsdiv :: "jsnum \<Rightarrow> jsnum \<Rightarrow> jsnum" where
  "jsdiv (Num a) (Num b) =
     (if b = 0 then (if a = 0 then NaN else if 0 < a then PosInfinity else NegInfinity)
      else double (a / b))"
| "jsdiv NaN y = NaN"
| "jsdiv x NaN = NaN"
| "jsdiv (Num a) y = Num 0"
| "jsdiv x (Num b) = (if 0 \<le> b then x else jsneg x)"
| "jsdiv x y = NaN"

fun jsgt :: "jsnum \<Rightarrow> jsnum \<Rightarrow> bool" where
  "jsgt (Num a) (Num b) = (b < a)"
| "jsgt NaN y = False"
| "jsgt x NaN = False"
| "jsgt PosInfinity y = (y \<noteq> PosInfinity)"
| "jsgt x NegInfinity = (x \<noteq> NegInfinity)"
| "jsgt x y = False"

text \<open>
  \<open>computeTextEmbedding\<close> as it runs on doubles. The entries of \<open>vector\<close> are counts of
  bigrams: a string of the language has fewer than \<open>2 ^ 53\<close> code units, and the
  integers up to \<open>2 ^ 53\<close> are doubles. \<open>reduce\<close> starts from 0 and adds the square of
  every entry; \<open>vector.map\<close> divides every entry by \<open>magnitude\<close>, and only when
  \<open>magnitude > 0\<close>.
\<close>

definition computeTextEmbedding_double :: "(jsstring \<Rightarrow> jsstring) \<Rightarrow> jsstring \<Rightarrow> jsnum list" where
  "computeTextEmbedding_double toLowerCase text =
     (let vector = map (\<lambda>count. Num (real count)) (featureVector (bigramFeatures toLowerCase text));
          magnitude = jssqrt (foldl (\<lambda>sum val. jsadd sum (jsmul val val)) (Num 0) vector)
      in if jsgt magnitude (Num 0) then map (\<lambda>v. jsdiv v magnitude) vector else vector)"

text \<open>
  For the analysis of the errors: \<open>rnd\<close> is the rounding to 53 significant bits with
  no bound on the exponent, with which \<open>double\<close> agrees on the normal doubles, and
  \<open>unitRoundoff\<close> is the largest relative error of one rounding.
\<close>

definition rnd :: "real \<Rightarrow> real" where
  "rnd x =
     (if x = 0 then 0
      else let e = \<lfloor>log 2 \<bar>x\<bar>\<rfloor>
           in sgn x * of_int (roundEven (\<bar>x\<bar> * 2 powr (52 - of_int e))) * 2 powr (of_int e - 52))"

definition unitRoundoff :: real where
  "unitRoundoff = 1 / 2 ^ 53"

section \<open>Sequences of operations\<close>

text \<open>
  The operations a caller can run on the store, with the model's answers and the
  generated ids as arguments, and the store after one of them. A rejected \<open>add\<close>
  leaves the store as it is.
\<close>

datatype operation =
    Add "jsstring \<times> int" MemoryFactInput
  | Promote jsstring
  | Update jsstring MemoryFactPartial
  | Organize "nat list option"
  | Consolidate "nat list option" "jsstring list option" "nat \<Rightarrow> jsstring \<times> int"
  | Delete jsstring

fun step :: "operation \<Rightarrow> MemoryFact list \<Rightarrow> MemoryFact list" where
  "step (Add stamp inp) s = (case addMemoryFact stamp inp s of Inl e \<Rightarrow> s | Inr (f, s') \<Rightarrow> s')"
| "step (Promote k) s = promoteToLongTerm k s"
| "step (Update k u) s = updateMemoryFact k u s"
| "step (Organize keepAnswer) s = snd (organizeMemories keepAnswer s)"
| "step (Consolidate keepAnswer sumAnswer stamps) s =
     snd (organizeAndSummarizeLongTerm keepAnswer sumAnswer stamps s)"
| "step (Delete k) s = deleteMemoryFact k s"

text \<open>
  The lifecycle type of the fact stored under an id, if there is one; \<open>alive k ops s\<close>
  holds when the id \<open>k\<close> is present before, between and after the operations \<open>ops\<close>
  run from \<open>s\<close>.
\<close>

definition lifecycle :: "MemoryFact list \<Rightarrow> jsstring \<Rightarrow> memtype option" where
  "lifecycle s k = map_option mtype (storeGet factId k s)"

fun alive :: "jsstring \<Rightarrow> operation list \<Rightarrow> MemoryFact list \<Rightarrow> bool" where
  "alive k [] s = (storeGet factId k s \<noteq> None)"
| "alive k (x # xs) s = (storeGet factId k s \<noteq> None \<and> alive k xs (step x s))"

text \<open>
  An update that neither names a new id nor sets the type back to short-term. Every
  other operation qualifies.
\<close>

fun keepsType :: "operation \<Rightarrow> bool" where
  "keepsType (Update k u) = (p_mtype u \<noteq> Some short_term \<and> p_factId u = None)"
| "keepsType x = True"

section \<open>Sample data\<close>

text \<open>A fact with a one-unit id, used in the concrete instances below.\<close>

definition sample :: "16 word \<Rightarrow> int \<Rightarrow> memtype \<Rightarrow> MemoryFact" where
  "sample c ts ty =
     \<lparr> factText = [c, c], category = userinfo, originalEventDate = None, mtype = ty,
       importance = None, source = Some conversation, factId = [c], timestamp = ts \<rparr>"

section \<open>Properties of the deduplication\<close>

lemma jsIncludes_iff: "jsIncludes hay needle \<longleftrightarrow> (\<exists>ps ss. hay = ps @ needle @ ss)"
proof
  assume "jsIncludes hay needle"
  then obtain i where i: "take (length needle) (drop i hay) = needle"
    by (auto simp: jsIncludes_def list_ex_iff)
  have "hay = take i hay @ take (length needle) (drop i hay) @ drop (length needle) (drop i hay)"
    by (simp only: append_take_drop_id)
  with i show "\<exists>ps ss. hay = ps @ needle @ ss"
    by metis
next
  assume "\<exists>ps ss. hay = ps @ needle @ ss"
  then obtain ps ss where h: "hay = ps @ needle @ ss"
    by blast
  have "take (length needle) (drop (length ps) hay) = needle"
    by (simp add: h)
  moreover have "length ps \<in> set [0..<Suc (length hay)]"
    by (simp add: h)
  ultimately show "jsIncludes hay needle"
    unfolding jsIncludes_def list_ex_iff by blast
qed

lemma set_byNewest: "set (byNewest fs) = set fs"
  by (simp add: byNewest_def)

lemma set_allMemories:
  "set (getShortTermMemories s @ getLongTermMemories s) = set s"
proof -
  have "\<And>f. mtype f = short_term \<or> mtype f = long_term"
    by (metis memtype.exhaust)
  then show ?thesis
    by (auto simp: getShortTermMemories_def getLongTermMemories_def set_byNewest)
qed


lemma similarTo_iff:
  "similarTo cand m \<longleftrightarrow>
     factText m = cand \<or>
     (((\<exists>ps ss. factText m = ps @ cand @ ss) \<or> (\<exists>ps ss. cand = ps @ factText m @ ss)) \<and>
      \<bar>int (length (factText m)) - int (length cand)\<bar> \<le> 3)"
  unfolding similarTo_def jsIncludes_iff lengthDiff_def by auto

lemma isDuplicateMemory_single:
  "isDuplicateMemory cand [m] = similarTo cand m"
  by (cases "mtype m") (simp_all add: isDuplicateMemory_def getShortTermMemories_def
      getLongTermMemories_def byNewest_def)

text \<open>
  Claim C3. \<open>isDuplicateMemory\<close> answers true exactly when some stored fact, short-term
  or long-term, has the candidate's text, or contains it or is contained in it with a
  difference of at most 3 code units in length. In particular, against a single stored
  fact \<open>m\<close> whose text \<open>t\<close> contains \<open>sub\<close>, the candidate \<open>sub\<close> is a duplicate exactly
  when the lengths differ by at most 3, and so is the candidate \<open>t\<close> against a single
  stored fact \<open>m'\<close> of text \<open>sub\<close>.
\<close>

theorem isDuplicateMemory_spec:
  assumes "t = ps @ sub @ ss" and "factText m = t" and "factText m' = sub"
  shows "(isDuplicateMemory cand s \<longleftrightarrow>
           (\<exists>x \<in> set s. factText x = cand \<or>
              (((\<exists>ps ss. factText x = ps @ cand @ ss) \<or> (\<exists>ps ss. cand = ps @ factText x @ ss)) \<and>
               \<bar>int (length (factText x)) - int (length cand)\<bar> \<le> 3))) \<and>
         (isDuplicateMemory sub [m] \<longleftrightarrow> \<bar>int (length t) - int (length sub)\<bar> \<le> 3) \<and>
         (isDuplicateMemory t [m'] \<longleftrightarrow> \<bar>int (length t) - int (length sub)\<bar> \<le> 3)"
proof (intro conjI)
  show "isDuplicateMemory cand s \<longleftrightarrow>
           (\<exists>x \<in> set s. factText x = cand \<or>
              (((\<exists>ps ss. factText x = ps @ cand @ ss) \<or> (\<exists>ps ss. cand = ps @ factText x @ ss)) \<and>
               \<bar>int (length (factText x)) - int (length cand)\<bar> \<le> 3))"
    unfolding isDuplicateMemory_def Let_def list_ex_iff set_allMemories
    by (rule bex_cong [OF refl]) (rule similarTo_iff)
next
  have inc: "\<exists>ps ss. factText m = ps @ sub @ ss"
    using assms(1,2) by blast
  have "similarTo sub m \<longleftrightarrow> \<bar>int (length t) - int (length sub)\<bar> \<le> 3"
  proof (cases "factText m = sub")
    case True
    with assms(2) show ?thesis by (simp add: similarTo_iff)
  next
    case False
    with inc assms(2) show ?thesis by (simp add: similarTo_iff)
  qed
  then show "isDuplicateMemory sub [m] \<longleftrightarrow> \<bar>int (length t) - int (length sub)\<bar> \<le> 3"
    by (simp only: isDuplicateMemory_single)
next
  have inc: "\<exists>ps ss. t = ps @ factText m' @ ss"
    using assms(1,3) by blast
  have "similarTo t m' \<longleftrightarrow> \<bar>int (length t) - int (length sub)\<bar> \<le> 3"
  proof (cases "factText m' = t")
    case True
    with assms(3) show ?thesis by (simp add: similarTo_iff)
  next
    case False
    with inc assms(3) show ?thesis by (simp add: similarTo_iff) (smt (verit))
  qed
  then show "isDuplicateMemory t [m'] \<longleftrightarrow> \<bar>int (length t) - int (length sub)\<bar> \<le> 3"
    by (simp only: isDuplicateMemory_single)
qed

text \<open>
  The stored fact is "taoyan xiangcai" (four code units); the candidate "xiangcai" (its
  last two code units) is flagged, and so is the longer text against the shorter one.
\<close>

theorem isDuplicateMemory_spec_witness:
  "isDuplicateMemory [0x9999, 0x83DC]
     [\<lparr> factText = [0x8BA8, 0x538C, 0x9999, 0x83DC], category = userinfo,
        originalEventDate = None, mtype = short_term, importance = Some 0.6,
        source = Some conversation, factId = js ''fact-1'', timestamp = 1 \<rparr>] \<and>
   isDuplicateMemory [0x8BA8, 0x538C, 0x9999, 0x83DC]
     [\<lparr> factText = [0x9999, 0x83DC], category = userinfo,
        originalEventDate = None, mtype = long_term, importance = Some 0.6,
        source = Some conversation, factId = js ''fact-2'', timestamp = 2 \<rparr>]"
  using isDuplicateMemory_spec
    [of "[0x8BA8, 0x538C, 0x9999, 0x83DC]" "[0x8BA8, 0x538C]" "[0x9999, 0x83DC]" "[]"
        "\<lparr> factText = [0x8BA8, 0x538C, 0x9999, 0x83DC], category = userinfo,
           originalEventDate = None, mtype = short_term, importance = Some 0.6,
           source = Some conversation, factId = js ''fact-1'', timestamp = 1 \<rparr>"
        "\<lparr> factText = [0x9999, 0x83DC], category = userinfo,
           originalEventDate = None, mtype = long_term, importance = Some 0.6,
           source = Some conversation, factId = js ''fact-2'', timestamp = 2 \<rparr>"
        "[]" "[]"]
  by simp

section \<open>Properties of the promotion\<close>

lemma storeGet_None: "storeGet key k rs = None \<longleftrightarrow> (\<forall>r \<in> set rs. key r \<noteq> k)"
  by (auto simp: storeGet_def find_None_iff)

lemma storeGet_Some: "storeGet key k rs = Some r \<Longrightarrow> r \<in> set rs \<and> key r = k"
  by (auto simp: storeGet_def find_Some_iff)

lemma storeGet_distinct:
  "distinct (map key rs) \<Longrightarrow> r \<in> set rs \<Longrightarrow> storeGet key (key r) rs = Some r"
proof (induction rs)
  case Nil
  then show ?case by simp
next
  case (Cons a rs)
  then show ?case by (auto simp: storeGet_def)
qed

lemma long_update_id: "mtype f = long_term \<Longrightarrow> f\<lparr> mtype := long_term \<rparr> = f"
  for f :: MemoryFact
  by simp

lemma promote_map:
  assumes "distinct (map factId s)"
  shows "promoteToLongTerm k s = map (\<lambda>f. if factId f = k then f\<lparr> mtype := long_term \<rparr> else f) s"
proof (cases "storeGet factId k s")
  case None
  then have "\<forall>f \<in> set s. factId f \<noteq> k"
    by (simp add: storeGet_None)
  then have "map (\<lambda>f. if factId f = k then f\<lparr> mtype := long_term \<rparr> else f) s = s"
    by (intro map_idI) simp
  with None show ?thesis by (simp add: promoteToLongTerm_def)
next
  case (Some f)
  then have f: "f \<in> set s" "factId f = k"
    using storeGet_Some [of factId k s f] by simp_all
  have uniq: "\<And>g. g \<in> set s \<Longrightarrow> factId g = k \<Longrightarrow> g = f"
  proof -
    fix g assume "g \<in> set s" "factId g = k"
    moreover have "inj_on factId (set s)"
      using assms by (simp add: distinct_map)
    ultimately show "g = f"
      using f by (intro inj_onD [of factId "set s" g f]) simp_all
  qed
  show ?thesis
  proof (cases "mtype f = short_term")
    case True
    have ex: "list_ex (\<lambda>r'. factId r' = factId (f\<lparr> mtype := long_term \<rparr>)) s"
      using f by (auto simp: list_ex_iff)
    have "map (\<lambda>r'. if factId r' = factId (f\<lparr> mtype := long_term \<rparr>) then f\<lparr> mtype := long_term \<rparr> else r') s
        = map (\<lambda>f. if factId f = k then f\<lparr> mtype := long_term \<rparr> else f) s"
    proof (intro map_cong refl)
      fix x assume x: "x \<in> set s"
      show "(if factId x = factId (f\<lparr> mtype := long_term \<rparr>) then f\<lparr> mtype := long_term \<rparr> else x)
            = (if factId x = k then x\<lparr> mtype := long_term \<rparr> else x)"
      proof (cases "factId x = k")
        case True
        with uniq [OF x] have "x = f" by simp
        with f show ?thesis by simp
      next
        case False
        with f show ?thesis by simp
      qed
    qed
    with Some True ex show ?thesis
      by (simp add: promoteToLongTerm_def storePut_def)
  next
    case False
    then have long: "mtype f = long_term"
      by (cases "mtype f") simp_all
    have "map (\<lambda>f. if factId f = k then f\<lparr> mtype := long_term \<rparr> else f) s = s"
    proof (intro map_idI)
      fix g assume "g \<in> set s"
      show "(if factId g = k then g\<lparr> mtype := long_term \<rparr> else g) = g"
      proof (cases "factId g = k")
        case True
        with uniq [OF \<open>g \<in> set s\<close>] have "g = f" by simp
        with long True show ?thesis by simp
      next
        case False
        then show ?thesis by simp
      qed
    qed
    with Some long show ?thesis by (simp add: promoteToLongTerm_def)
  qed
qed

lemma ids_promoted:
  "map factId (map (\<lambda>f. if factId f \<in> K then f\<lparr> mtype := long_term \<rparr> else f) s) = map factId s"
  by (induction s) simp_all

lemma ids_promoted1:
  "map factId (map (\<lambda>f. if factId f = k then f\<lparr> mtype := long_term \<rparr> else f) s) = map factId s"
  by (induction s) simp_all

lemma fold_promote:
  assumes "distinct (map factId s)"
  shows "fold (\<lambda>m. promoteToLongTerm (factId m)) ms s
         = map (\<lambda>f. if factId f \<in> factId ` set ms then f\<lparr> mtype := long_term \<rparr> else f) s"
  using assms
proof (induction ms arbitrary: s)
  case Nil
  then show ?case by (simp add: map_idI)
next
  case (Cons m ms)
  let ?s1 = "map (\<lambda>f. if factId f = factId m then f\<lparr> mtype := long_term \<rparr> else f) s"
  have s1: "promoteToLongTerm (factId m) s = ?s1"
    by (rule promote_map [OF Cons.prems])
  have d1: "distinct (map factId ?s1)"
    using Cons.prems by (simp only: ids_promoted1)
  have "fold (\<lambda>m. promoteToLongTerm (factId m)) (m # ms) s
        = fold (\<lambda>m. promoteToLongTerm (factId m)) ms ?s1"
    by (simp add: s1)
  also have "\<dots> = map (\<lambda>f. if factId f \<in> factId ` set ms then f\<lparr> mtype := long_term \<rparr> else f) ?s1"
    by (rule Cons.IH [OF d1])
  also have "\<dots> = map (\<lambda>f. if factId f \<in> factId ` set (m # ms) then f\<lparr> mtype := long_term \<rparr> else f) s"
    by (simp add: comp_def)
  finally show ?case .
qed

lemma promoteKept_eq:
  assumes "distinct (map factId s)"
  shows "promoteKept keep i ms p s
         = (p + length (filter (\<lambda>(j, m). Suc j \<in> set keep) (enumerate i ms)),
            map (\<lambda>f. if factId f \<in> factId ` snd ` set (filter (\<lambda>(j, m). Suc j \<in> set keep) (enumerate i ms))
                      then f\<lparr> mtype := long_term \<rparr> else f) s)"
  using assms
proof (induction ms arbitrary: i p s)
  case Nil
  then show ?case by (simp add: map_idI)
next
  case (Cons m ms)
  let ?sel = "filter (\<lambda>(j, m). Suc j \<in> set keep) (enumerate (Suc i) ms)"
  show ?case
  proof (cases "Suc i \<in> set keep")
    case True
    let ?s1 = "map (\<lambda>f. if factId f = factId m then f\<lparr> mtype := long_term \<rparr> else f) s"
    have s1: "promoteToLongTerm (factId m) s = ?s1"
      by (rule promote_map [OF Cons.prems])
    have d1: "distinct (map factId ?s1)"
      using Cons.prems by (simp only: ids_promoted1)
    have "promoteKept keep i (m # ms) p s = promoteKept keep (Suc i) ms (Suc p) ?s1"
      using True by (simp add: s1)
    also have "\<dots> = (Suc p + length ?sel,
            map (\<lambda>f. if factId f \<in> factId ` snd ` set ?sel then f\<lparr> mtype := long_term \<rparr> else f) ?s1)"
      by (rule Cons.IH [OF d1])
    also have "map (\<lambda>f. if factId f \<in> factId ` snd ` set ?sel then f\<lparr> mtype := long_term \<rparr> else f) ?s1
        = map (\<lambda>f. if factId f \<in> factId ` snd ` set ((i, m) # ?sel) then f\<lparr> mtype := long_term \<rparr> else f) s"
      by (simp add: comp_def)
    finally show ?thesis
      using True by simp
  next
    case False
    then show ?thesis
      using Cons.IH [OF Cons.prems, of "Suc i" p] by simp
  qed
qed

lemma distinct_ids_byNewest: "distinct (map factId (byNewest fs)) = distinct (map factId fs)"
  by (simp add: byNewest_def distinct_map)

lemma distinct_ids_getShort:
  "distinct (map factId s) \<Longrightarrow> distinct (map factId (getShortTermMemories s))"
  by (simp add: getShortTermMemories_def distinct_ids_byNewest distinct_map_filter)

lemma set_getShort: "set (getShortTermMemories s) = {f \<in> set s. mtype f = short_term}"
  by (simp add: getShortTermMemories_def set_byNewest)

lemma set_getLong: "set (getLongTermMemories s) = {f \<in> set s. mtype f = long_term}"
  by (simp add: getLongTermMemories_def set_byNewest)

lemma organizeMemories_effect:
  assumes "distinct (map factId s)"
  shows "organizeMemories answer s =
     (if length (getShortTermMemories s) < 5 then (\<lparr> promoted = 0, removed = 0 \<rparr>, s)
      else case answer of
        Some keep \<Rightarrow>
          (\<lparr> promoted = length (filter (\<lambda>(j, m). Suc j \<in> set keep) (enumerate 0 (getShortTermMemories s))),
             removed = length (getShortTermMemories s)
                - length (filter (\<lambda>(j, m). Suc j \<in> set keep) (enumerate 0 (getShortTermMemories s))) \<rparr>,
           map (\<lambda>f. if factId f \<in> factId ` snd ` set (filter (\<lambda>(j, m). Suc j \<in> set keep)
                                                       (enumerate 0 (getShortTermMemories s)))
                     then f\<lparr> mtype := long_term \<rparr> else f) s)
      | None \<Rightarrow>
          (\<lparr> promoted = keepCountOf (length (getShortTermMemories s)),
             removed = length (getShortTermMemories s) - keepCountOf (length (getShortTermMemories s)) \<rparr>,
           map (\<lambda>f. if factId f \<in> factId ` set (take (keepCountOf (length (getShortTermMemories s)))
                                                     (getShortTermMemories s))
                     then f\<lparr> mtype := long_term \<rparr> else f) s))"
  by (simp add: organizeMemories_def Let_def promoteKept_eq [OF assms] fold_promote [OF assms]
      split: option.splits)

lemma card_ids:
  "distinct (map factId ms) \<Longrightarrow> card (factId ` set ms) = length ms"
  using distinct_card [of "map factId ms"] by simp

lemma distinct_ids_selected:
  assumes "distinct (map factId ms)"
  shows "distinct (map factId (map snd (filter P (enumerate i ms))))"
proof -
  have "map (factId \<circ> snd) (enumerate i ms) = map factId ms"
    by (simp add: map_snd_enumerate flip: map_map)
  with assms have "distinct (map (factId \<circ> snd) (enumerate i ms))"
    by simp
  then have "distinct (map (factId \<circ> snd) (filter P (enumerate i ms)))"
    by (rule distinct_map_filter)
  then show ?thesis by simp
qed

lemma selected_subset: "snd ` set (filter P (enumerate i ms)) \<subseteq> set ms"
proof -
  have "snd ` set (filter P (enumerate i ms)) \<subseteq> snd ` set (enumerate i ms)"
    by auto
  also have "\<dots> = set ms"
    using map_snd_enumerate [of i ms] by (metis set_map)
  finally show ?thesis .
qed

lemma unselected_stay:
  "\<forall>f \<in> set s. factId f \<notin> K \<longrightarrow>
     f \<in> set (map (\<lambda>f. if factId f \<in> K then f\<lparr> mtype := long_term \<rparr> else f) s)"
proof
  fix f assume f: "f \<in> set s"
  show "factId f \<notin> K \<longrightarrow> f \<in> set (map (\<lambda>f. if factId f \<in> K then f\<lparr> mtype := long_term \<rparr> else f) s)"
  proof
    assume "factId f \<notin> K"
    then have "(\<lambda>f. if factId f \<in> K then f\<lparr> mtype := long_term \<rparr> else f) f = f"
      by simp
    with f show "f \<in> set (map (\<lambda>f. if factId f \<in> K then f\<lparr> mtype := long_term \<rparr> else f) s)"
      unfolding set_map by (rule rev_image_eqI [OF _ sym])
  qed
qed

lemma organizeMemories_flips:
  assumes "distinct (map factId s)"
  shows "\<exists>K. K \<subseteq> factId ` set (getShortTermMemories s) \<and>
           snd (organizeMemories answer s)
             = map (\<lambda>f. if factId f \<in> K then f\<lparr> mtype := long_term \<rparr> else f) s \<and>
           map factId (snd (organizeMemories answer s)) = map factId s \<and>
           (\<forall>f \<in> set s. factId f \<notin> K \<longrightarrow> f \<in> set (snd (organizeMemories answer s))) \<and>
           promoted (fst (organizeMemories answer s)) = card K \<and>
           removed (fst (organizeMemories answer s))
             = (if length (getShortTermMemories s) < 5 then 0
                else length (getShortTermMemories s) - card K)"
proof -
  let ?sts = "getShortTermMemories s"
  have dsts: "distinct (map factId ?sts)"
    by (rule distinct_ids_getShort [OF assms])
  define K where "K =
     (if length ?sts < 5 then {}
      else case answer of
        Some keep \<Rightarrow> factId ` snd ` set (filter (\<lambda>(j, m). Suc j \<in> set keep) (enumerate 0 ?sts))
      | None \<Rightarrow> factId ` set (take (keepCountOf (length ?sts)) ?sts))"
  have sub: "K \<subseteq> factId ` set ?sts"
  proof (cases "length ?sts < 5")
    case True
    then show ?thesis by (simp add: K_def)
  next
    case False
    show ?thesis
    proof (cases answer)
      case None
      have "set (take (keepCountOf (length ?sts)) ?sts) \<subseteq> set ?sts"
        by (rule set_take_subset)
      with False None show ?thesis
        unfolding K_def by (simp add: image_mono)
    next
      case (Some keep)
      have "snd ` set (filter (\<lambda>(j, m). Suc j \<in> set keep) (enumerate 0 ?sts)) \<subseteq> set ?sts"
        by (rule selected_subset)
      with False Some show ?thesis
        unfolding K_def by (simp add: image_mono)
    qed
  qed
  have state: "snd (organizeMemories answer s)
      = map (\<lambda>f. if factId f \<in> K then f\<lparr> mtype := long_term \<rparr> else f) s"
  proof (cases "length ?sts < 5")
    case True
    have "map (\<lambda>f. if factId f \<in> {} then f\<lparr> mtype := long_term \<rparr> else f) s = s"
      by (simp add: map_idI)
    with True show ?thesis
      unfolding organizeMemories_effect [OF assms] K_def by simp
  next
    case False
    then show ?thesis
      unfolding organizeMemories_effect [OF assms] K_def by (cases answer) simp_all
  qed
  have kc: "keepCountOf (length ?sts) \<le> length ?sts"
    by (simp add: keepCountOf_def)
  have cardK: "card K =
     (if length ?sts < 5 then 0
      else case answer of
        Some keep \<Rightarrow> length (filter (\<lambda>(j, m). Suc j \<in> set keep) (enumerate 0 ?sts))
      | None \<Rightarrow> keepCountOf (length ?sts))"
  proof (cases "length ?sts < 5")
    case True
    then show ?thesis by (simp add: K_def)
  next
    case False
    show ?thesis
    proof (cases answer)
      case None
      have "distinct (map factId (take (keepCountOf (length ?sts)) ?sts))"
        using dsts by (simp add: take_map [symmetric])
      from card_ids [OF this] kc False None show ?thesis
        by (simp add: K_def)
    next
      case (Some keep)
      let ?sel = "map snd (filter (\<lambda>(j, m). Suc j \<in> set keep) (enumerate 0 ?sts))"
      have "distinct (map factId ?sel)"
        by (rule distinct_ids_selected [OF dsts])
      from card_ids [OF this] False Some show ?thesis
        by (simp add: K_def)
    qed
  qed
  have counts: "promoted (fst (organizeMemories answer s)) = card K"
    "removed (fst (organizeMemories answer s))
             = (if length ?sts < 5 then 0 else length ?sts - card K)"
    unfolding organizeMemories_effect [OF assms] cardK
    by (cases "length ?sts < 5"; cases answer; simp)+
  have ids: "map factId (snd (organizeMemories answer s)) = map factId s"
    unfolding state by (rule ids_promoted)
  have stay: "\<forall>f \<in> set s. factId f \<notin> K \<longrightarrow> f \<in> set (snd (organizeMemories answer s))"
    unfolding state by (rule unselected_stay)
  from sub state ids stay counts show ?thesis
    by blast
qed

text \<open>
  Claim C8. \<open>organizeMemories\<close> deletes nothing. For a store with one record per id there
  is a set \<open>K\<close> of ids of short-term facts, the promoted ones, such that the store after
  the call is the store before it with exactly the facts of \<open>K\<close> switched to long-term:
  the ids are the same, in the same order, every fact outside \<open>K\<close> is still there as it
  was. The result nevertheless reports the number of short-term facts that were not
  promoted as \<open>removed\<close>.
\<close>

theorem organizeMemories_only_flips:
  assumes "distinct (map factId s)"
  shows "\<exists>K. K \<subseteq> factId ` set (getShortTermMemories s) \<and>
           snd (organizeMemories answer s)
             = map (\<lambda>f. if factId f \<in> K then f\<lparr> mtype := long_term \<rparr> else f) s \<and>
           map factId (snd (organizeMemories answer s)) = map factId s \<and>
           (\<forall>f \<in> set s. factId f \<notin> K \<longrightarrow> f \<in> set (snd (organizeMemories answer s))) \<and>
           promoted (fst (organizeMemories answer s)) = card K \<and>
           removed (fst (organizeMemories answer s))
             = (if length (getShortTermMemories s) < 5 then 0
                else length (getShortTermMemories s) - card K)"
  using assms by (rule organizeMemories_flips)

lemma keepCountOf_floor: "int (keepCountOf n) = \<lfloor>0.4 * real n\<rfloor>"
proof -
  have "0.4 * real n = real (n * 4) / real 10"
    by simp
  then have "\<lfloor>0.4 * real n\<rfloor> = \<lfloor>real (n * 4) / real 10\<rfloor>"
    by simp
  also have "\<dots> = int ((n * 4) div 10)"
    by (rule floor_divide_of_nat_eq)
  finally show ?thesis
    by (simp add: keepCountOf_def)
qed

lemma keepCountOf_nine: "keepCountOf 9 = 3"
  by (simp add: keepCountOf_def)

lemma filter_short_promoted:
  "filter (\<lambda>f. mtype f = short_term) (map (\<lambda>f. if factId f \<in> K then f\<lparr> mtype := long_term \<rparr> else f) s)
   = filter (\<lambda>f. factId f \<notin> K) (filter (\<lambda>f. mtype f = short_term) s)"
  by (induction s) simp_all

lemma getShort_promoted:
  "getShortTermMemories (map (\<lambda>f. if factId f \<in> K then f\<lparr> mtype := long_term \<rparr> else f) s)
   = filter (\<lambda>f. factId f \<notin> K) (getShortTermMemories s)"
  unfolding getShortTermMemories_def byNewest_def filter_short_promoted
  by (rule filter_sort [symmetric])

lemma filter_taken:
  "distinct (map g xs) \<Longrightarrow> filter (\<lambda>x. g x \<notin> g ` set (take k xs)) xs = drop k xs"
proof (induction xs arbitrary: k)
  case Nil
  then show ?case by simp
next
  case (Cons a xs)
  show ?case
  proof (cases k)
    case 0
    then show ?thesis by simp
  next
    case (Suc j)
    have notin: "\<And>x. x \<in> set xs \<Longrightarrow> g x \<noteq> g a"
      using Cons.prems by (metis distinct.simps(2) image_eqI list.simps(9) set_map)
    have "filter (\<lambda>x. g x \<notin> g ` set (take k (a # xs))) xs
          = filter (\<lambda>x. g x \<notin> g ` set (take j xs)) xs"
      using notin by (intro filter_cong refl) (simp add: Suc)
    also have "\<dots> = drop j xs"
    proof (rule Cons.IH)
      show "distinct (map g xs)"
        using Cons.prems by simp
    qed
    finally show ?thesis
      by (simp add: Suc)
  qed
qed

lemma length_short_long:
  "length (getShortTermMemories s) + length (getLongTermMemories s) = length s"
proof -
  have "(\<lambda>f :: MemoryFact. mtype f = long_term) = (\<lambda>f. \<not> mtype f = short_term)"
  proof (rule ext)
    fix f :: MemoryFact
    show "(mtype f = long_term) = (\<not> mtype f = short_term)"
      by (cases "mtype f") simp_all
  qed
  then have "getLongTermMemories s = byNewest (filter (\<lambda>f. \<not> mtype f = short_term) s)"
    by (simp add: getLongTermMemories_def)
  then show ?thesis
    by (simp add: getShortTermMemories_def byNewest_def sum_length_filter_compl)
qed

lemma set_getLong_promoted:
  assumes d: "distinct (map factId s)" and sub: "set ms \<subseteq> set s"
  shows "set (getLongTermMemories (map (\<lambda>f. if factId f \<in> factId ` set ms then f\<lparr> mtype := long_term \<rparr> else f) s))
         = set (getLongTermMemories s) \<union> (\<lambda>f. f\<lparr> mtype := long_term \<rparr>) ` set ms"
proof -
  let ?K = "factId ` set ms"
  let ?flip = "\<lambda>f. if factId f \<in> ?K then f\<lparr> mtype := long_term \<rparr> else f"
  have inj: "inj_on factId (set s)"
    using d by (simp add: distinct_map)
  have inK: "\<And>f. f \<in> set s \<Longrightarrow> factId f \<in> ?K \<Longrightarrow> f \<in> set ms"
  proof -
    fix f assume f: "f \<in> set s" and "factId f \<in> ?K"
    then obtain m where m: "m \<in> set ms" "factId f = factId m"
      by blast
    with sub have "m \<in> set s" by blast
    with inj f m have "f = m"
      by (intro inj_onD [of factId "set s" f m]) simp_all
    with m show "f \<in> set ms" by simp
  qed
  show ?thesis
  proof (intro set_eqI iffI)
    fix x assume "x \<in> set (getLongTermMemories (map ?flip s))"
    then obtain f where f: "f \<in> set s" and x: "x = ?flip f" and long: "mtype x = long_term"
      unfolding set_getLong by auto
    show "x \<in> set (getLongTermMemories s) \<union> (\<lambda>f. f\<lparr> mtype := long_term \<rparr>) ` set ms"
    proof (cases "factId f \<in> ?K")
      case True
      with inK [OF f] x show ?thesis by simp
    next
      case False
      with x long f show ?thesis
        unfolding set_getLong by simp
    qed
  next
    fix x assume "x \<in> set (getLongTermMemories s) \<union> (\<lambda>f. f\<lparr> mtype := long_term \<rparr>) ` set ms"
    then consider "x \<in> set s" "mtype x = long_term" | m where "m \<in> set ms" "x = m\<lparr> mtype := long_term \<rparr>"
      unfolding set_getLong by blast
    then show "x \<in> set (getLongTermMemories (map ?flip s))"
    proof cases
      case 1
      then have "?flip x = x" by simp
      with 1 have "x \<in> ?flip ` set s"
        by (intro rev_image_eqI [of x "set s"]) simp_all
      with 1 show ?thesis
        unfolding set_getLong by simp
    next
      case 2
      with sub have ms: "m \<in> set s" by blast
      from 2 have "?flip m = x" by simp
      with ms have "x \<in> ?flip ` set s"
        by (intro rev_image_eqI [of m "set s"]) simp_all
      with 2 show ?thesis
        unfolding set_getLong by simp
    qed
  qed
qed

text \<open>
  Claim C4, as amended. With at least five short-term facts and a failing model call,
  exactly \<open>\<lfloor>0.4 N\<rfloor>\<close> facts are promoted: the first ones of the list that
  \<open>getShortTermMemories\<close> returns, which is ordered newest first. The other short-term
  facts stay short-term, in the same order.
\<close>

theorem organizeMemories_fallback:
  assumes "distinct (map factId s)" and "5 \<le> length (getShortTermMemories s)"
  defines "sts \<equiv> getShortTermMemories s"
  defines "k \<equiv> keepCountOf (length (getShortTermMemories s))"
  shows "organizeMemories None s =
           (\<lparr> promoted = k, removed = length sts - k \<rparr>,
            map (\<lambda>f. if factId f \<in> factId ` set (take k sts) then f\<lparr> mtype := long_term \<rparr> else f) s) \<and>
         int k = \<lfloor>0.4 * real (length sts)\<rfloor> \<and>
         getShortTermMemories (snd (organizeMemories None s)) = drop k sts \<and>
         set (getLongTermMemories (snd (organizeMemories None s)))
           = set (getLongTermMemories s) \<union> (\<lambda>f. f\<lparr> mtype := long_term \<rparr>) ` set (take k sts) \<and>
         length (getLongTermMemories (snd (organizeMemories None s)))
           = length (getLongTermMemories s) + k"
proof -
  let ?s' = "map (\<lambda>f. if factId f \<in> factId ` set (take k sts) then f\<lparr> mtype := long_term \<rparr> else f) s"
  have eff: "organizeMemories None s = (\<lparr> promoted = k, removed = length sts - k \<rparr>, ?s')"
    using assms(2) unfolding organizeMemories_effect [OF assms(1)] sts_def k_def by simp
  have fl: "int k = \<lfloor>0.4 * real (length sts)\<rfloor>"
    unfolding k_def sts_def by (rule keepCountOf_floor)
  have dsts: "distinct (map factId sts)"
    unfolding sts_def by (rule distinct_ids_getShort [OF assms(1)])
  have short: "getShortTermMemories ?s' = drop k sts"
    unfolding getShort_promoted sts_def [symmetric] by (rule filter_taken [OF dsts])
  have "set (take k sts) \<subseteq> set sts"
    by (rule set_take_subset)
  also have "\<dots> \<subseteq> set s"
    unfolding sts_def set_getShort by blast
  finally have sub: "set (take k sts) \<subseteq> set s" .
  have long: "set (getLongTermMemories ?s')
           = set (getLongTermMemories s) \<union> (\<lambda>f. f\<lparr> mtype := long_term \<rparr>) ` set (take k sts)"
    by (rule set_getLong_promoted [OF assms(1) sub])
  have kle: "k \<le> length sts"
    by (simp add: k_def sts_def keepCountOf_def)
  have "length (getShortTermMemories ?s') + length (getLongTermMemories ?s') = length ?s'"
    by (rule length_short_long)
  moreover have "length sts + length (getLongTermMemories s) = length s"
    unfolding sts_def by (rule length_short_long)
  ultimately have len: "length (getLongTermMemories ?s') = length (getLongTermMemories s) + k"
    using kle by (simp add: short)
  show ?thesis
    unfolding eff using fl short long len by simp
qed

text \<open>
  Five short-term facts and one long-term fact: the two newest short-term facts are
  promoted.
\<close>

theorem organizeMemories_fallback_witness:
  "distinct (map factId [sample 0x61 1 short_term, sample 0x62 2 short_term, sample 0x63 3 short_term,
      sample 0x64 4 short_term, sample 0x65 5 short_term, sample 0x66 6 long_term]) \<and>
   5 \<le> length (getShortTermMemories [sample 0x61 1 short_term, sample 0x62 2 short_term,
      sample 0x63 3 short_term, sample 0x64 4 short_term, sample 0x65 5 short_term,
      sample 0x66 6 long_term]) \<and>
   fst (organizeMemories None [sample 0x61 1 short_term, sample 0x62 2 short_term,
      sample 0x63 3 short_term, sample 0x64 4 short_term, sample 0x65 5 short_term,
      sample 0x66 6 long_term]) = \<lparr> promoted = 2, removed = 3 \<rparr> \<and>
   getShortTermMemories (snd (organizeMemories None [sample 0x61 1 short_term, sample 0x62 2 short_term,
      sample 0x63 3 short_term, sample 0x64 4 short_term, sample 0x65 5 short_term,
      sample 0x66 6 long_term]))
     = [sample 0x63 3 short_term, sample 0x62 2 short_term, sample 0x61 1 short_term]"
proof -
  let ?s = "[sample 0x61 1 short_term, sample 0x62 2 short_term, sample 0x63 3 short_term,
      sample 0x64 4 short_term, sample 0x65 5 short_term, sample 0x66 6 long_term]"
  have d: "distinct (map factId ?s)"
    by (simp add: sample_def)
  have sts: "getShortTermMemories ?s = [sample 0x65 5 short_term, sample 0x64 4 short_term,
      sample 0x63 3 short_term, sample 0x62 2 short_term, sample 0x61 1 short_term]"
    by (simp add: getShortTermMemories_def byNewest_def sample_def)
  then have five: "5 \<le> length (getShortTermMemories ?s)"
    by simp
  note fb = organizeMemories_fallback [OF d five]
  from fb have "fst (organizeMemories None ?s)
      = \<lparr> promoted = keepCountOf (length (getShortTermMemories ?s)),
          removed = length (getShortTermMemories ?s) - keepCountOf (length (getShortTermMemories ?s)) \<rparr>"
    by simp
  then have r: "fst (organizeMemories None ?s) = \<lparr> promoted = 2, removed = 3 \<rparr>"
    by (simp add: sts keepCountOf_def)
  from fb have "getShortTermMemories (snd (organizeMemories None ?s))
      = drop (keepCountOf (length (getShortTermMemories ?s))) (getShortTermMemories ?s)"
    by blast
  then have sh: "getShortTermMemories (snd (organizeMemories None ?s))
      = [sample 0x63 3 short_term, sample 0x62 2 short_term, sample 0x61 1 short_term]"
    by (simp add: sts keepCountOf_def)
  from d five r sh show ?thesis
    by blast
qed

text \<open>
  Claim C4 as stated fails. Five facts are added one after the other with increasing
  timestamps; the failing call promotes the two that were added last and leaves the
  first two of the insertion order short-term.
\<close>

theorem organizeMemories_fallback_counterexample:
  "fold (\<lambda>(c, ts) s.
           case addMemoryFact ([c], ts)
                  \<lparr> factText = [c, c], category = userinfo, originalEventDate = None,
                    mtype = short_term, importance = None, source = Some conversation \<rparr> s of
             Inl e \<Rightarrow> s
           | Inr (f, s') \<Rightarrow> s')
      [(0x61, 1), (0x62, 2), (0x63, 3), (0x64, 4), (0x65, 5)] []
     = [sample 0x61 1 short_term, sample 0x62 2 short_term, sample 0x63 3 short_term,
        sample 0x64 4 short_term, sample 0x65 5 short_term] \<and>
   organizeMemories None
       [sample 0x61 1 short_term, sample 0x62 2 short_term, sample 0x63 3 short_term,
        sample 0x64 4 short_term, sample 0x65 5 short_term]
     = (\<lparr> promoted = 2, removed = 3 \<rparr>,
        [sample 0x61 1 short_term, sample 0x62 2 short_term, sample 0x63 3 short_term,
         sample 0x64 4 long_term, sample 0x65 5 long_term])"
proof -
  let ?s = "[sample 0x61 1 short_term, sample 0x62 2 short_term, sample 0x63 3 short_term,
        sample 0x64 4 short_term, sample 0x65 5 short_term]"
  have d: "distinct (map factId ?s)"
    by (simp add: sample_def)
  have sts: "getShortTermMemories ?s = [sample 0x65 5 short_term, sample 0x64 4 short_term,
      sample 0x63 3 short_term, sample 0x62 2 short_term, sample 0x61 1 short_term]"
    by (simp add: getShortTermMemories_def byNewest_def sample_def)
  have org: "organizeMemories None ?s
     = (\<lparr> promoted = 2, removed = 3 \<rparr>,
        [sample 0x61 1 short_term, sample 0x62 2 short_term, sample 0x63 3 short_term,
         sample 0x64 4 long_term, sample 0x65 5 long_term])"
    unfolding organizeMemories_effect [OF d] sts
    by (simp add: keepCountOf_def sample_def)
  have ins: "fold (\<lambda>(c, ts) s.
           case addMemoryFact ([c], ts)
                  \<lparr> factText = [c, c], category = userinfo, originalEventDate = None,
                    mtype = short_term, importance = None, source = Some conversation \<rparr> s of
             Inl e \<Rightarrow> s
           | Inr (f, s') \<Rightarrow> s')
      [(0x61, 1), (0x62, 2), (0x63, 3), (0x64, 4), (0x65, 5)] [] = ?s"
    by (simp add: addMemoryFact_def storeAdd_def Let_def sample_def)
  from ins org show ?thesis
    by (rule conjI)
qed

text \<open>
  The model keeps the indices 1 and 3 of the newest-first list: the newest and the
  third newest fact are switched, nothing is removed, and \<open>removed\<close> is 3.
\<close>

theorem organizeMemories_only_flips_witness:
  "distinct (map factId [sample 0x61 1 short_term, sample 0x62 2 short_term, sample 0x63 3 short_term,
      sample 0x64 4 short_term, sample 0x65 5 short_term]) \<and>
   map factId (snd (organizeMemories (Some [1, 3]) [sample 0x61 1 short_term, sample 0x62 2 short_term,
      sample 0x63 3 short_term, sample 0x64 4 short_term, sample 0x65 5 short_term]))
     = [[0x61], [0x62], [0x63], [0x64], [0x65]] \<and>
   organizeMemories (Some [1, 3]) [sample 0x61 1 short_term, sample 0x62 2 short_term,
      sample 0x63 3 short_term, sample 0x64 4 short_term, sample 0x65 5 short_term]
     = (\<lparr> promoted = 2, removed = 3 \<rparr>,
        [sample 0x61 1 short_term, sample 0x62 2 short_term, sample 0x63 3 long_term,
         sample 0x64 4 short_term, sample 0x65 5 long_term])"
proof -
  let ?s = "[sample 0x61 1 short_term, sample 0x62 2 short_term, sample 0x63 3 short_term,
        sample 0x64 4 short_term, sample 0x65 5 short_term]"
  have d: "distinct (map factId ?s)"
    by (simp add: sample_def)
  have sts: "getShortTermMemories ?s = [sample 0x65 5 short_term, sample 0x64 4 short_term,
      sample 0x63 3 short_term, sample 0x62 2 short_term, sample 0x61 1 short_term]"
    by (simp add: getShortTermMemories_def byNewest_def sample_def)
  have org: "organizeMemories (Some [1, 3]) ?s
     = (\<lparr> promoted = 2, removed = 3 \<rparr>,
        [sample 0x61 1 short_term, sample 0x62 2 short_term, sample 0x63 3 long_term,
         sample 0x64 4 short_term, sample 0x65 5 long_term])"
    unfolding organizeMemories_effect [OF d] sts
    by (simp add: enumerate_eq_zip upt_rec sample_def)
  from organizeMemories_only_flips [OF d, of "Some [1, 3]"]
  have "map factId (snd (organizeMemories (Some [1, 3]) ?s)) = map factId ?s"
    by blast
  then have "map factId (snd (organizeMemories (Some [1, 3]) ?s)) = [[0x61], [0x62], [0x63], [0x64], [0x65]]"
    by (simp add: sample_def)
  with d org show ?thesis
    by simp
qed

section \<open>Properties of the consolidation\<close>

lemma list_ex_ids: "list_ex (\<lambda>r'. key r' = k) rs \<longleftrightarrow> k \<in> key ` set rs"
  by (auto simp: list_ex_iff)

lemma distinct_ids_insort:
  assumes "distinct (map factId s)" and "factId f \<notin> factId ` set s"
  shows "distinct (map factId (insort_key factId f s))"
proof -
  have nf: "f \<notin> set s"
    using assms(2) by blast
  have "factId ` (set s - {f}) \<subseteq> factId ` set s"
    by blast
  with assms(2) have "factId f \<notin> factId ` (set s - {f})"
    by blast
  moreover have "inj_on factId (set s)"
    using assms(1) by (simp add: distinct_map)
  ultimately have "inj_on factId (insert f (set s))"
    by (simp add: inj_on_insert)
  with nf assms(1) show ?thesis
    by (simp add: distinct_map distinct_insort set_insort_key)
qed

lemma addMemoryFact_Inl:
  "addMemoryFact stamp inp s = Inl e \<longleftrightarrow> fst stamp \<in> factId ` set s"
  by (cases e) (simp add: addMemoryFact_def storeAdd_def Let_def list_ex_ids)

lemma addMemoryFact_Inr:
  assumes "addMemoryFact stamp inp s = Inr (f, s')"
  shows "f = \<lparr> factText = factText inp, category = category inp,
               originalEventDate = originalEventDate inp, mtype = mtype inp,
               importance = importance inp, source = source inp,
               factId = fst stamp, timestamp = snd stamp \<rparr>"
    and "s' = insort_key factId f s"
    and "fst stamp \<notin> factId ` set s"
  using assms
  by (auto simp: addMemoryFact_def storeAdd_def Let_def list_ex_ids split: if_splits)

lemma addMemoryFact_fresh:
  assumes "fst stamp \<notin> factId ` set s"
  shows "\<exists>f. addMemoryFact stamp inp s = Inr (f, insort_key factId f s) \<and> factId f = fst stamp"
  using assms by (simp add: addMemoryFact_def storeAdd_def Let_def list_ex_ids)

lemma addSummaries_Inr:
  assumes "addSummaries stamps n xs s = Inr s'"
  shows "set s' = set s \<union> set (map (\<lambda>(i, x).
            \<lparr> factText = x, category = shared_event, originalEventDate = None,
              mtype = long_term, importance = Some 0.8, source = Some system,
              factId = fst (stamps i), timestamp = snd (stamps i) \<rparr>) (enumerate n xs))
         \<and> (\<forall>i \<in> {n..<n + length xs}. fst (stamps i) \<notin> factId ` set s)
         \<and> (distinct (map factId s) \<longrightarrow> distinct (map factId s'))"
  using assms
proof (induction xs arbitrary: n s)
  case Nil
  then show ?case by simp
next
  case (Cons x xs)
  let ?inp = "\<lparr> factText = x, category = shared_event, originalEventDate = None,
               mtype = long_term, importance = Some 0.8, source = Some system \<rparr>"
  from Cons.prems obtain f s1 where add: "addMemoryFact (stamps n) ?inp s = Inr (f, s1)"
    and rest: "addSummaries stamps (Suc n) xs s1 = Inr s'"
    by (auto split: sum.splits)
  note a = addMemoryFact_Inr [OF add]
  have f: "f = \<lparr> factText = x, category = shared_event, originalEventDate = None,
               mtype = long_term, importance = Some 0.8, source = Some system,
               factId = fst (stamps n), timestamp = snd (stamps n) \<rparr>"
    using a(1) by simp
  have s1: "set s1 = insert f (set s)"
    using a(2) by (simp add: set_insort_key)
  have fid: "factId f = fst (stamps n)"
    using f by simp
  note ih = Cons.IH [OF rest]
  have set': "set s' = set s \<union> set (map (\<lambda>(i, x).
            \<lparr> factText = x, category = shared_event, originalEventDate = None,
              mtype = long_term, importance = Some 0.8, source = Some system,
              factId = fst (stamps i), timestamp = snd (stamps i) \<rparr>) (enumerate n (x # xs)))"
    using ih s1 f by auto
  have fresh: "\<forall>i \<in> {n..<n + length (x # xs)}. fst (stamps i) \<notin> factId ` set s"
  proof
    fix i assume i: "i \<in> {n..<n + length (x # xs)}"
    show "fst (stamps i) \<notin> factId ` set s"
    proof (cases "i = n")
      case True
      with a(3) show ?thesis by simp
    next
      case False
      with i have "i \<in> {Suc n..<Suc n + length xs}" by auto
      with ih have "fst (stamps i) \<notin> factId ` set s1" by blast
      with s1 show ?thesis by auto
    qed
  qed
  have dist: "distinct (map factId s) \<longrightarrow> distinct (map factId s')"
  proof
    assume d: "distinct (map factId s)"
    have "distinct (map factId (insort_key factId f s))"
      using d a(3) fid by (intro distinct_ids_insort) simp_all
    with a(2) ih show "distinct (map factId s')" by simp
  qed
  from set' fresh dist show ?case by blast
qed

lemma addSummaries_Inl:
  "addSummaries stamps n xs s = Inl (e, s') \<Longrightarrow> set s \<subseteq> set s'"
proof (induction xs arbitrary: n s)
  case Nil
  then show ?case by simp
next
  case (Cons x xs)
  let ?inp = "\<lparr> factText = x, category = shared_event, originalEventDate = None,
               mtype = long_term, importance = Some 0.8, source = Some system \<rparr>"
  show ?case
  proof (cases "addMemoryFact (stamps n) ?inp s")
    case (Inl e')
    with Cons.prems show ?thesis by simp
  next
    case (Inr p)
    obtain f s1 where p: "p = (f, s1)" by (cases p)
    from Inr p Cons.prems have rest: "addSummaries stamps (Suc n) xs s1 = Inl (e, s')"
      by simp
    from Inr p have "s1 = insort_key factId f s"
      using addMemoryFact_Inr(2) by blast
    then have "set s \<subseteq> set s1"
      by (auto simp: set_insort_key)
    with Cons.IH [OF rest] show ?thesis by blast
  qed
qed

lemma addSummaries_fresh:
  assumes "distinct (map (\<lambda>i. fst (stamps i)) [n..<n + length xs])"
    and "\<forall>i \<in> {n..<n + length xs}. fst (stamps i) \<notin> factId ` set s"
  shows "\<exists>s'. addSummaries stamps n xs s = Inr s'"
  using assms
proof (induction xs arbitrary: n s)
  case Nil
  then show ?case by simp
next
  case (Cons x xs)
  let ?inp = "\<lparr> factText = x, category = shared_event, originalEventDate = None,
               mtype = long_term, importance = Some 0.8, source = Some system \<rparr>"
  have "fst (stamps n) \<notin> factId ` set s"
    using Cons.prems(2) by simp
  from addMemoryFact_fresh [OF this, of ?inp]
  obtain f where add: "addMemoryFact (stamps n) ?inp s = Inr (f, insort_key factId f s)"
    and fid: "factId f = fst (stamps n)"
    by blast
  have up: "[n..<n + length (x # xs)] = n # [Suc n..<Suc n + length xs]"
  proof -
    have "n < n + length (x # xs)"
      by simp
    then have "[n..<n + length (x # xs)] = n # [Suc n..<n + length (x # xs)]"
      by (rule upt_conv_Cons)
    moreover have "n + length (x # xs) = Suc n + length xs"
      by simp
    ultimately show ?thesis
      by (simp only:)
  qed
  from Cons.prems(1) have "distinct (map (\<lambda>i. fst (stamps i)) (n # [Suc n..<Suc n + length xs]))"
    by (simp only: up)
  then have d: "distinct (map (\<lambda>i. fst (stamps i)) [Suc n..<Suc n + length xs])"
    and nn: "fst (stamps n) \<notin> set (map (\<lambda>i. fst (stamps i)) [Suc n..<Suc n + length xs])"
    by (simp_all add: del: upt_Suc)
  have fr: "\<forall>i \<in> {Suc n..<Suc n + length xs}. fst (stamps i) \<notin> factId ` set (insort_key factId f s)"
  proof
    fix i assume i: "i \<in> {Suc n..<Suc n + length xs}"
    then have "fst (stamps i) \<in> set (map (\<lambda>i. fst (stamps i)) [Suc n..<Suc n + length xs])"
      by (simp only: set_map set_upt image_eqI)
    with nn have "fst (stamps i) \<noteq> fst (stamps n)"
      by metis
    moreover from i have "fst (stamps i) \<notin> factId ` set s"
      using Cons.prems(2) by simp
    ultimately show "fst (stamps i) \<notin> factId ` set (insort_key factId f s)"
      using fid by (simp add: set_insort_key)
  qed
  from Cons.IH [OF d fr] add show ?case
    by simp
qed

lemma fold_delete:
  "fold (\<lambda>mem. deleteMemoryFact (factId mem)) ms s = filter (\<lambda>f. factId f \<notin> factId ` set ms) s"
proof (induction ms arbitrary: s)
  case Nil
  then show ?case by simp
next
  case (Cons m ms)
  have "fold (\<lambda>mem. deleteMemoryFact (factId mem)) (m # ms) s
        = fold (\<lambda>mem. deleteMemoryFact (factId mem)) ms (filter (\<lambda>r. factId r \<noteq> factId m) s)"
    by (simp add: deleteMemoryFact_def storeDelete_def)
  also have "\<dots> = filter (\<lambda>f. factId f \<notin> factId ` set ms) (filter (\<lambda>r. factId r \<noteq> factId m) s)"
    by (rule Cons.IH)
  also have "\<dots> = filter (\<lambda>f. factId f \<notin> factId ` set (m # ms)) s"
    by (induction s) auto
  finally show ?case .
qed

lemma consolidate_unfold:
  "organizeAndSummarizeLongTerm ka sa st s =
     (if 8 \<le> length (getLongTermMemories s) then
        (case sa of
           None \<Rightarrow> (\<lparr> c_promoted = promoted (fst (organizeMemories ka s)), summarized = 0 \<rparr>,
                    snd (organizeMemories ka s))
         | Some summaries \<Rightarrow>
             (case addSummaries st 0 summaries (snd (organizeMemories ka s)) of
                Inl (e, s2) \<Rightarrow>
                  (\<lparr> c_promoted = promoted (fst (organizeMemories ka s)), summarized = 0 \<rparr>, s2)
              | Inr s2 \<Rightarrow>
                  (if summaries \<noteq> []
                   then (\<lparr> c_promoted = promoted (fst (organizeMemories ka s)),
                           summarized = length summaries \<rparr>,
                         filter (\<lambda>f. factId f \<notin> factId ` set (getLongTermMemories s)) s2)
                   else (\<lparr> c_promoted = promoted (fst (organizeMemories ka s)), summarized = 0 \<rparr>,
                         s2))))
      else (\<lparr> c_promoted = promoted (fst (organizeMemories ka s)), summarized = 0 \<rparr>,
            snd (organizeMemories ka s)))"
proof -
  obtain r s1 where o: "organizeMemories ka s = (r, s1)"
    by (cases "organizeMemories ka s")
  show ?thesis
  proof (cases "8 \<le> length (getLongTermMemories s)")
    case False
    then show ?thesis
      by (simp add: organizeAndSummarizeLongTerm_def Let_def o)
  next
    case True
    then have n8: "\<not> length (getLongTermMemories s) < 8"
      by simp
    show ?thesis
    proof (cases sa)
      case None
      with True n8 show ?thesis
        by (simp add: organizeAndSummarizeLongTerm_def summarizeLongTermMemories_def Let_def o)
    next
      case (Some summaries)
      show ?thesis
      proof (cases "addSummaries st 0 summaries s1")
        case (Inl p)
        obtain e s2 where p: "p = (e, s2)" by (cases p)
        with Inl Some True n8 show ?thesis
          by (simp add: organizeAndSummarizeLongTerm_def summarizeLongTermMemories_def Let_def o)
      next
        case (Inr s2)
        with Some True n8 show ?thesis
          by (simp add: organizeAndSummarizeLongTerm_def summarizeLongTermMemories_def Let_def o
              fold_delete)
      qed
    qed
  qed
qed

lemma long_term_kept:
  assumes d: "distinct (map factId s)" and K: "K \<subseteq> factId ` set (getShortTermMemories s)"
    and f: "f \<in> set (getLongTermMemories s)"
  shows "factId f \<notin> K"
proof
  assume "factId f \<in> K"
  with K obtain g where g: "g \<in> set (getShortTermMemories s)" "factId f = factId g"
    by blast
  have inj: "inj_on factId (set s)"
    using d by (simp add: distinct_map)
  from g(1) have gs: "g \<in> set s" "mtype g = short_term"
    by (simp_all add: getShortTermMemories_def byNewest_def)
  from f have fs: "f \<in> set s" "mtype f = long_term"
    by (simp_all add: getLongTermMemories_def byNewest_def)
  from inj_onD [OF inj g(2) fs(1) gs(1)] have "f = g" .
  with gs(2) fs(2) show False
    by simp
qed

text \<open>
  Claim C1. \<open>lt\<close> are the long-term facts read at the start of the call, \<open>s1\<close> is the
  store after the promotion step, \<open>new\<close> the facts written for the summaries. On a
  store with one record per id:
  \<^item> when the call reports 0 summaries, every fact of \<open>lt\<close> is still in the store;
  \<^item> when it reports more than 0, the model answered with that many summaries, no id of
    \<open>lt\<close> is left, and the store is \<open>s1\<close> without \<open>lt\<close> plus exactly one fact per summary
    (long-term, \<open>shared_event\<close>, importance 0.8, source \<open>system\<close>); facts promoted by the
    same call stay;
  \<^item> a failed call, an empty answer or fewer than 8 long-term facts report 0 and leave
    the store as the promotion step left it;
  \<^item> a non-empty answer whose generated ids are new to the store reports its length.
\<close>

theorem organizeAndSummarizeLongTerm_all_or_nothing:
  fixes s :: "MemoryFact list" and keepAnswer :: "nat list option"
    and sumAnswer :: "jsstring list option" and stamps :: "nat \<Rightarrow> jsstring \<times> int"
  assumes d: "distinct (map factId s)"
  defines "lt \<equiv> getLongTermMemories s"
  defines "s1 \<equiv> snd (organizeMemories keepAnswer s)"
  defines "out \<equiv> organizeAndSummarizeLongTerm keepAnswer sumAnswer stamps s"
  defines "new \<equiv> \<lambda>summaries. map (\<lambda>(i, x).
            \<lparr> factText = x, category = shared_event, originalEventDate = None,
              mtype = long_term, importance = Some 0.8, source = Some system,
              factId = fst (stamps i), timestamp = snd (stamps i) \<rparr>) (enumerate 0 summaries)"
  shows "(summarized (fst out) = 0 \<longrightarrow> set lt \<subseteq> set (snd out)) \<and>
         (0 < summarized (fst out) \<longrightarrow>
            (\<exists>summaries. sumAnswer = Some summaries \<and> summarized (fst out) = length summaries \<and>
               (\<forall>f \<in> set lt. factId f \<notin> factId ` set (snd out)) \<and>
               set (snd out) = (set s1 - set lt) \<union> set (new summaries))) \<and>
         (sumAnswer = None \<or> sumAnswer = Some [] \<or> length lt < 8 \<longrightarrow>
            summarized (fst out) = 0 \<and> snd out = s1) \<and>
         (\<forall>summaries. sumAnswer = Some summaries \<and> summaries \<noteq> [] \<and> 8 \<le> length lt \<and>
              distinct (map (\<lambda>i. fst (stamps i)) [0..<length summaries]) \<and>
              (\<forall>i < length summaries. fst (stamps i) \<notin> factId ` set s)
            \<longrightarrow> summarized (fst out) = length summaries)"
proof -
  from organizeMemories_flips [OF d, of keepAnswer]
  obtain K where K: "K \<subseteq> factId ` set (getShortTermMemories s)"
    and ids: "map factId s1 = map factId s"
    and stay: "\<forall>f \<in> set s. factId f \<notin> K \<longrightarrow> f \<in> set s1"
    unfolding s1_def by blast
  have d1: "distinct (map factId s1)"
    using d by (simp only: ids)
  have inj1: "inj_on factId (set s1)"
    using d1 by (simp add: distinct_map)
  have lt_s1: "set lt \<subseteq> set s1"
  proof
    fix f assume f: "f \<in> set lt"
    then have "factId f \<notin> K"
      unfolding lt_def by (rule long_term_kept [OF d K])
    moreover from f have "f \<in> set s"
      by (simp add: lt_def getLongTermMemories_def byNewest_def)
    ultimately show "f \<in> set s1"
      using stay by blast
  qed
  have ids_set: "factId ` set s1 = factId ` set s"
    using ids by (metis set_map)
  note unf = consolidate_unfold [of keepAnswer sumAnswer stamps s, folded lt_def s1_def out_def]
  have part1: "summarized (fst out) = 0 \<longrightarrow> set lt \<subseteq> set (snd out)"
  proof
    assume z: "summarized (fst out) = 0"
    show "set lt \<subseteq> set (snd out)"
    proof (cases "8 \<le> length lt")
      case False
      with unf lt_s1 show ?thesis by simp
    next
      case True
      show ?thesis
      proof (cases sumAnswer)
        case None
        with True unf lt_s1 show ?thesis by simp
      next
        case (Some summaries)
        show ?thesis
        proof (cases "addSummaries stamps 0 summaries s1")
          case (Inl p)
          obtain e s2 where p: "p = (e, s2)" by (cases p)
          from Inl p have "set s1 \<subseteq> set s2"
            using addSummaries_Inl by blast
          moreover from Inl p Some True unf have "snd out = s2" by simp
          ultimately show ?thesis using lt_s1 by blast
        next
          case (Inr s2)
          show ?thesis
          proof (cases "summaries = []")
            case True
            with Inr have "s2 = s1" by simp
            with Inr Some \<open>8 \<le> length lt\<close> True unf lt_s1 show ?thesis by simp
          next
            case False
            with Inr Some \<open>8 \<le> length lt\<close> unf have "summarized (fst out) = length summaries"
              by simp
            with z False show ?thesis by simp
          qed
        qed
      qed
    qed
  qed
  have part2: "0 < summarized (fst out) \<longrightarrow>
            (\<exists>summaries. sumAnswer = Some summaries \<and> summarized (fst out) = length summaries \<and>
               (\<forall>f \<in> set lt. factId f \<notin> factId ` set (snd out)) \<and>
               set (snd out) = (set s1 - set lt) \<union> set (new summaries))"
  proof
    assume pos: "0 < summarized (fst out)"
    have l8: "8 \<le> length lt"
    proof (rule ccontr)
      assume "\<not> 8 \<le> length lt"
      with unf have "summarized (fst out) = 0" by simp
      with pos show False by simp
    qed
    obtain summaries where Some: "sumAnswer = Some summaries"
    proof (cases sumAnswer)
      case None
      with l8 unf have "summarized (fst out) = 0" by simp
      with pos show ?thesis by simp
    next
      case (Some a)
      with that show ?thesis by blast
    qed
    obtain s2 where Inr: "addSummaries stamps 0 summaries s1 = Inr s2"
    proof (cases "addSummaries stamps 0 summaries s1")
      case (Inl p)
      obtain e s2 where p: "p = (e, s2)" by (cases p)
      with Inl Some l8 unf have "summarized (fst out) = 0" by simp
      with pos show ?thesis by simp
    next
      case (Inr b)
      with that show ?thesis by blast
    qed
    have ne: "summaries \<noteq> []"
    proof
      assume "summaries = []"
      with Inr Some l8 unf have "summarized (fst out) = 0" by simp
      with pos show False by simp
    qed
    from Inr Some l8 ne unf
    have cnt: "summarized (fst out) = length summaries"
      and st: "snd out = filter (\<lambda>f. factId f \<notin> factId ` set lt) s2"
      by simp_all
    from addSummaries_Inr [OF Inr]
    have s2: "set s2 = set s1 \<union> set (new summaries)"
      and fresh: "\<forall>i \<in> {0..<0 + length summaries}. fst (stamps i) \<notin> factId ` set s1"
      unfolding new_def by blast+
    have gone: "\<forall>f \<in> set lt. factId f \<notin> factId ` set (snd out)"
    proof
      fix f assume f: "f \<in> set lt"
      show "factId f \<notin> factId ` set (snd out)"
      proof
        assume "factId f \<in> factId ` set (snd out)"
        then obtain x where x: "x \<in> set (snd out)" "factId f = factId x"
          by blast
        from x(1) have "factId x \<notin> factId ` set lt"
          unfolding st by simp
        with f x(2) show False
          by (metis image_eqI)
      qed
    qed
    have new_ids: "\<And>f. f \<in> set (new summaries) \<Longrightarrow> factId f \<notin> factId ` set s1"
    proof -
      fix f assume "f \<in> set (new summaries)"
      then obtain i x where ix: "(i, x) \<in> set (enumerate 0 summaries)"
        and f: "factId f = fst (stamps i)"
        unfolding new_def by auto
      from ix have "i \<in> {0..<0 + length summaries}"
        by (auto simp: in_set_enumerate_eq)
      with fresh f show "factId f \<notin> factId ` set s1" by simp
    qed
    have "set (snd out) = (set s1 - set lt) \<union> set (new summaries)"
    proof (intro set_eqI iffI)
      fix f assume "f \<in> set (snd out)"
      then have f2: "f \<in> set s2" and nid: "factId f \<notin> factId ` set lt"
        unfolding st by simp_all
      from nid have "f \<notin> set lt" by blast
      with f2 s2 show "f \<in> (set s1 - set lt) \<union> set (new summaries)" by blast
    next
      fix f assume "f \<in> (set s1 - set lt) \<union> set (new summaries)"
      then consider "f \<in> set s1" "f \<notin> set lt" | "f \<in> set (new summaries)" by blast
      then show "f \<in> set (snd out)"
      proof cases
        case 1
        have "factId f \<notin> factId ` set lt"
        proof
          assume "factId f \<in> factId ` set lt"
          then obtain g where g: "g \<in> set lt" "factId f = factId g" by blast
          with lt_s1 have "g \<in> set s1" by blast
          from inj_onD [OF inj1 g(2) 1(1) this] have "f = g" .
          with g 1 show False by simp
        qed
        with 1 s2 show ?thesis unfolding st by simp
      next
        case 2
        from new_ids [OF 2] lt_s1 have "factId f \<notin> factId ` set lt" by blast
        with 2 s2 show ?thesis unfolding st by simp
      qed
    qed
    with Some cnt gone show "\<exists>summaries. sumAnswer = Some summaries \<and>
        summarized (fst out) = length summaries \<and>
        (\<forall>f \<in> set lt. factId f \<notin> factId ` set (snd out)) \<and>
        set (snd out) = (set s1 - set lt) \<union> set (new summaries)"
      by blast
  qed
  have part3: "sumAnswer = None \<or> sumAnswer = Some [] \<or> length lt < 8 \<longrightarrow>
            summarized (fst out) = 0 \<and> snd out = s1"
  proof
    assume "sumAnswer = None \<or> sumAnswer = Some [] \<or> length lt < 8"
    then consider "length lt < 8" | "8 \<le> length lt" "sumAnswer = None"
      | "8 \<le> length lt" "sumAnswer = Some []"
      by fastforce
    then show "summarized (fst out) = 0 \<and> snd out = s1"
    proof cases
      case 1
      with unf show ?thesis by simp
    next
      case 2
      with unf show ?thesis by simp
    next
      case 3
      with unf show ?thesis by simp
    qed
  qed
  have part4: "\<forall>summaries. sumAnswer = Some summaries \<and> summaries \<noteq> [] \<and> 8 \<le> length lt \<and>
              distinct (map (\<lambda>i. fst (stamps i)) [0..<length summaries]) \<and>
              (\<forall>i < length summaries. fst (stamps i) \<notin> factId ` set s)
            \<longrightarrow> summarized (fst out) = length summaries"
  proof (intro allI impI)
    fix summaries
    assume a: "sumAnswer = Some summaries \<and> summaries \<noteq> [] \<and> 8 \<le> length lt \<and>
              distinct (map (\<lambda>i. fst (stamps i)) [0..<length summaries]) \<and>
              (\<forall>i < length summaries. fst (stamps i) \<notin> factId ` set s)"
    then have dd: "distinct (map (\<lambda>i. fst (stamps i)) [0..<0 + length summaries])"
      and fr: "\<forall>i \<in> {0..<0 + length summaries}. fst (stamps i) \<notin> factId ` set s1"
      by (simp_all add: ids_set)
    from addSummaries_fresh [OF dd fr] obtain s2 where "addSummaries stamps 0 summaries s1 = Inr s2"
      by blast
    with a unf show "summarized (fst out) = length summaries"
      by simp
  qed
  from part1 part2 part3 part4 show ?thesis
    by blast
qed

text \<open>
  Eight long-term facts and two summaries: the eight are replaced by the two summary
  facts; with a failing model call the store is unchanged.
\<close>

theorem organizeAndSummarizeLongTerm_all_or_nothing_witness:
  "distinct (map factId [sample 0x61 1 long_term, sample 0x62 2 long_term, sample 0x63 3 long_term,
      sample 0x64 4 long_term, sample 0x65 5 long_term, sample 0x66 6 long_term,
      sample 0x67 7 long_term, sample 0x68 8 long_term]) \<and>
   organizeAndSummarizeLongTerm None (Some [[0x78], [0x79]]) (\<lambda>i. if i = 0 then ([0x70], 100) else ([0x71], 101))
     [sample 0x61 1 long_term, sample 0x62 2 long_term, sample 0x63 3 long_term,
      sample 0x64 4 long_term, sample 0x65 5 long_term, sample 0x66 6 long_term,
      sample 0x67 7 long_term, sample 0x68 8 long_term]
   = (\<lparr> c_promoted = 0, summarized = 2 \<rparr>,
      [\<lparr> factText = [0x78], category = shared_event, originalEventDate = None,
        mtype = long_term, importance = Some 0.8, source = Some system,
        factId = [0x70], timestamp = 100 \<rparr>,
       \<lparr> factText = [0x79], category = shared_event, originalEventDate = None,
        mtype = long_term, importance = Some 0.8, source = Some system,
        factId = [0x71], timestamp = 101 \<rparr>]) \<and>
   set (getLongTermMemories [sample 0x61 1 long_term, sample 0x62 2 long_term, sample 0x63 3 long_term,
      sample 0x64 4 long_term, sample 0x65 5 long_term, sample 0x66 6 long_term,
      sample 0x67 7 long_term, sample 0x68 8 long_term]) \<inter>
     set (snd (organizeAndSummarizeLongTerm None (Some [[0x78], [0x79]]) (\<lambda>i. if i = 0 then ([0x70], 100) else ([0x71], 101))
       [sample 0x61 1 long_term, sample 0x62 2 long_term, sample 0x63 3 long_term,
      sample 0x64 4 long_term, sample 0x65 5 long_term, sample 0x66 6 long_term,
      sample 0x67 7 long_term, sample 0x68 8 long_term])) = {} \<and>
   organizeAndSummarizeLongTerm None None (\<lambda>i. if i = 0 then ([0x70], 100) else ([0x71], 101))
     [sample 0x61 1 long_term, sample 0x62 2 long_term, sample 0x63 3 long_term,
      sample 0x64 4 long_term, sample 0x65 5 long_term, sample 0x66 6 long_term,
      sample 0x67 7 long_term, sample 0x68 8 long_term]
   = (\<lparr> c_promoted = 0, summarized = 0 \<rparr>,
      [sample 0x61 1 long_term, sample 0x62 2 long_term, sample 0x63 3 long_term,
      sample 0x64 4 long_term, sample 0x65 5 long_term, sample 0x66 6 long_term,
      sample 0x67 7 long_term, sample 0x68 8 long_term])"
proof -
  let ?s = "[sample 0x61 1 long_term, sample 0x62 2 long_term, sample 0x63 3 long_term,
      sample 0x64 4 long_term, sample 0x65 5 long_term, sample 0x66 6 long_term,
      sample 0x67 7 long_term, sample 0x68 8 long_term]"
  let ?st = "(\<lambda>i. if i = 0 then ([0x70], 100) else ([0x71], 101)) :: nat \<Rightarrow> jsstring \<times> int"
  have d: "distinct (map factId ?s)"
    by (simp add: sample_def)
  have lt: "getLongTermMemories ?s = rev ?s"
    by (simp add: getLongTermMemories_def byNewest_def sample_def)
  have sh: "getShortTermMemories ?s = []"
    by (simp add: getShortTermMemories_def byNewest_def sample_def)
  have org: "organizeMemories None ?s = (\<lparr> promoted = 0, removed = 0 \<rparr>, ?s)"
    by (simp add: organizeMemories_def sh)
  have add: "addSummaries ?st 0 [[0x78], [0x79]] ?s
      = Inr (?s @ [\<lparr> factText = [0x78], category = shared_event, originalEventDate = None,
        mtype = long_term, importance = Some 0.8, source = Some system,
        factId = [0x70], timestamp = 100 \<rparr>,
       \<lparr> factText = [0x79], category = shared_event, originalEventDate = None,
        mtype = long_term, importance = Some 0.8, source = Some system,
        factId = [0x71], timestamp = 101 \<rparr>])"
    by (simp add: addMemoryFact_def storeAdd_def Let_def sample_def)
  have run: "organizeAndSummarizeLongTerm None (Some [[0x78], [0x79]]) ?st ?s
   = (\<lparr> c_promoted = 0, summarized = 2 \<rparr>,
      [\<lparr> factText = [0x78], category = shared_event, originalEventDate = None,
        mtype = long_term, importance = Some 0.8, source = Some system,
        factId = [0x70], timestamp = 100 \<rparr>,
       \<lparr> factText = [0x79], category = shared_event, originalEventDate = None,
        mtype = long_term, importance = Some 0.8, source = Some system,
        factId = [0x71], timestamp = 101 \<rparr>])"
    apply (subst consolidate_unfold)
    apply (simp only: org snd_conv fst_conv add lt option.case sum.case)
    apply (simp add: sample_def)
    done
  have run0: "organizeAndSummarizeLongTerm None None ?st ?s = (\<lparr> c_promoted = 0, summarized = 0 \<rparr>, ?s)"
    unfolding consolidate_unfold org lt by simp
  note all = organizeAndSummarizeLongTerm_all_or_nothing [OF d, of None "Some [[0x78], [0x79]]" ?st]
  have pos: "0 < summarized (fst (organizeAndSummarizeLongTerm None (Some [[0x78], [0x79]]) ?st ?s))"
    by (simp add: run)
  from all pos have "\<forall>f \<in> set (getLongTermMemories ?s).
      factId f \<notin> factId ` set (snd (organizeAndSummarizeLongTerm None (Some [[0x78], [0x79]]) ?st ?s))"
    by blast
  then have disj: "set (getLongTermMemories ?s) \<inter>
     set (snd (organizeAndSummarizeLongTerm None (Some [[0x78], [0x79]]) ?st ?s)) = {}"
    by blast
  from d run disj run0 show ?thesis
    by blast
qed

section \<open>Properties of the batch extraction\<close>

lemma addExtracted_store:
  "(case addExtracted stamps n mems added s of Inl (e, s') \<Rightarrow> s' | Inr (a, s') \<Rightarrow> s') = s' \<Longrightarrow>
     set s \<subseteq> set s' \<and>
     (\<forall>f \<in> set s'. f \<in> set s \<or> (mtype f = long_term \<and> source f = Some system))"
proof (induction mems arbitrary: n added s)
  case Nil
  then show ?case by auto
next
  case (Cons mem mems)
  let ?inp = "\<lparr> factText = the (cand_fact mem),
                  category = (case cand_category mem of None \<Rightarrow> shared_event | Some c \<Rightarrow> c),
                  originalEventDate = None,
                  mtype = long_term,
                  importance = Some (case cand_importance mem of
                                       None \<Rightarrow> 0.7
                                     | Some x \<Rightarrow> if x = 0 then 0.7 else x),
                  source = Some system \<rparr>"
  show ?case
  proof (cases "truthy (cand_fact mem)")
    case False
    with Cons.prems have "(case addExtracted stamps n mems added s of
        Inl (e, s') \<Rightarrow> s' | Inr (a, s') \<Rightarrow> s') = s'"
      by simp
    from Cons.IH [OF this] show ?thesis .
  next
    case True
    show ?thesis
    proof (cases "addMemoryFact (stamps n) ?inp s")
      case (Inl e)
      with True Cons.prems have "s' = s" by simp
      then show ?thesis by simp
    next
      case (Inr p)
      obtain f s1 where p: "p = (f, s1)" by (cases p)
      note a = addMemoryFact_Inr [OF Inr [unfolded p]]
      have f: "mtype f = long_term" "source f = Some system"
        using a(1) by simp_all
      have s1: "set s1 = insert f (set s)"
        using a(2) by (simp add: set_insort_key)
      from True Inr p Cons.prems
      have "(case addExtracted stamps (Suc n) mems (added @ [f]) s1 of
          Inl (e, s') \<Rightarrow> s' | Inr (a, s') \<Rightarrow> s') = s'"
        by simp
      from Cons.IH [OF this] have ih: "set s1 \<subseteq> set s'"
        "\<forall>g \<in> set s'. g \<in> set s1 \<or> (mtype g = long_term \<and> source g = Some system)"
        by blast+
      have "set s \<subseteq> set s'"
        using ih(1) s1 by blast
      moreover have "\<forall>g \<in> set s'. g \<in> set s \<or> (mtype g = long_term \<and> source g = Some system)"
      proof
        fix g assume "g \<in> set s'"
        with ih(2) have "g \<in> set s1 \<or> (mtype g = long_term \<and> source g = Some system)"
          by blast
        with s1 f show "g \<in> set s \<or> (mtype g = long_term \<and> source g = Some system)"
          by auto
      qed
      ultimately show ?thesis by blast
    qed
  qed
qed

lemma addExtracted_fresh:
  assumes "distinct (map (\<lambda>i. fst (stamps i)) [n..<n + length (filter (\<lambda>m. truthy (cand_fact m)) mems)])"
    and "\<forall>i \<in> {n..<n + length (filter (\<lambda>m. truthy (cand_fact m)) mems)}.
           fst (stamps i) \<notin> factId ` set s"
  shows "\<exists>new s'. addExtracted stamps n mems added s = Inr (added @ new, s') \<and>
           set s' = set s \<union> set new \<and>
           map factText new = map (\<lambda>m. the (cand_fact m)) (filter (\<lambda>m. truthy (cand_fact m)) mems)"
  using assms
proof (induction mems arbitrary: n added s)
  case Nil
  then show ?case by simp
next
  case (Cons mem mems)
  let ?inp = "\<lparr> factText = the (cand_fact mem),
                  category = (case cand_category mem of None \<Rightarrow> shared_event | Some c \<Rightarrow> c),
                  originalEventDate = None,
                  mtype = long_term,
                  importance = Some (case cand_importance mem of
                                       None \<Rightarrow> 0.7
                                     | Some x \<Rightarrow> if x = 0 then 0.7 else x),
                  source = Some system \<rparr>"
  let ?k = "length (filter (\<lambda>m. truthy (cand_fact m)) mems)"
  show ?case
  proof (cases "truthy (cand_fact mem)")
    case False
    with Cons.prems have d: "distinct (map (\<lambda>i. fst (stamps i)) [n..<n + ?k])"
      and fr: "\<forall>i \<in> {n..<n + ?k}. fst (stamps i) \<notin> factId ` set s"
      by simp_all
    from Cons.IH [OF d fr, of added] False show ?thesis
      by simp
  next
    case True
    then have len: "length (filter (\<lambda>m. truthy (cand_fact m)) (mem # mems)) = Suc ?k"
      by simp
    have up: "[n..<n + Suc ?k] = n # [Suc n..<Suc n + ?k]"
    proof -
      have "n < n + Suc ?k"
        by simp
      then have "[n..<n + Suc ?k] = n # [Suc n..<n + Suc ?k]"
        by (rule upt_conv_Cons)
      moreover have "n + Suc ?k = Suc n + ?k"
        by simp
      ultimately show ?thesis
        by (simp only:)
    qed
    from Cons.prems(1) have "distinct (map (\<lambda>i. fst (stamps i)) (n # [Suc n..<Suc n + ?k]))"
      by (simp only: len up)
    then have d: "distinct (map (\<lambda>i. fst (stamps i)) [Suc n..<Suc n + ?k])"
      and nn: "fst (stamps n) \<notin> set (map (\<lambda>i. fst (stamps i)) [Suc n..<Suc n + ?k])"
      by (simp_all add: del: upt_Suc)
    have "fst (stamps n) \<notin> factId ` set s"
      using Cons.prems(2) len by simp
    from addMemoryFact_fresh [OF this, of ?inp]
    obtain f where add: "addMemoryFact (stamps n) ?inp s = Inr (f, insort_key factId f s)"
      and fid: "factId f = fst (stamps n)"
      by blast
    have ft: "factText f = the (cand_fact mem)"
      using addMemoryFact_Inr(1) [OF add] by simp
    have fr: "\<forall>i \<in> {Suc n..<Suc n + ?k}. fst (stamps i) \<notin> factId ` set (insort_key factId f s)"
    proof
      fix i assume i: "i \<in> {Suc n..<Suc n + ?k}"
      then have "fst (stamps i) \<in> set (map (\<lambda>i. fst (stamps i)) [Suc n..<Suc n + ?k])"
        by (simp only: set_map set_upt image_eqI)
      with nn have "fst (stamps i) \<noteq> fst (stamps n)"
        by metis
      moreover from i have "fst (stamps i) \<notin> factId ` set s"
        using Cons.prems(2) len by simp
      ultimately show "fst (stamps i) \<notin> factId ` set (insort_key factId f s)"
        using fid by (simp add: set_insort_key)
    qed
    from Cons.IH [OF d fr, of "added @ [f]"]
    obtain new s' where r: "addExtracted stamps (Suc n) mems (added @ [f]) (insort_key factId f s)
          = Inr ((added @ [f]) @ new, s')"
      and st: "set s' = set (insort_key factId f s) \<union> set new"
      and tx: "map factText new = map (\<lambda>m. the (cand_fact m)) (filter (\<lambda>m. truthy (cand_fact m)) mems)"
      by blast
    have "addExtracted stamps n (mem # mems) added s = Inr (added @ (f # new), s')"
      using True add r by simp
    moreover have "set s' = set s \<union> set (f # new)"
      using st by (simp add: set_insort_key)
    moreover have "map factText (f # new)
        = map (\<lambda>m. the (cand_fact m)) (filter (\<lambda>m. truthy (cand_fact m)) (mem # mems))"
      using True tx ft by simp
    ultimately show ?thesis
      by blast
  qed
qed

lemma pairLoop_Nil: "pairLoop [] i ps = ps"
  by (subst pairLoop.simps) simp

text \<open>
  Claim C7, as amended. Whatever the model answers, \<open>extractMemoriesFromHistory\<close> keeps
  every stored fact, and every fact it writes is long-term with source \<open>system\<close>. With
  no conversation pair (in particular with no message) it writes nothing and returns
  the count 0. When the model answers and the generated ids are new, it writes one
  fact for every candidate that has a non-empty text, in order: the number written is
  the number of such candidates, not capped at 5, and no candidate is compared with
  the stored facts.
\<close>

theorem extractMemoriesFromHistory_writes:
  fixes s :: "MemoryFact list" and stamps :: "nat \<Rightarrow> jsstring \<times> int"
    and answer :: "Candidate list option" and messages :: "Message list"
  defines "out \<equiv> extractMemoriesFromHistory stamps answer messages s"
  shows "set s \<subseteq> set (snd out) \<and>
         (\<forall>f \<in> set (snd out). f \<in> set s \<or> (mtype f = long_term \<and> source f = Some system)) \<and>
         (pairLoop messages 0 [] = [] \<longrightarrow> out = (\<lparr> count = 0, memories = [] \<rparr>, s)) \<and>
         (\<forall>mems. answer = Some mems \<and> pairLoop messages 0 [] \<noteq> [] \<and>
              distinct (map (\<lambda>i. fst (stamps i))
                          [0..<length (filter (\<lambda>m. truthy (cand_fact m)) mems)]) \<and>
              (\<forall>i < length (filter (\<lambda>m. truthy (cand_fact m)) mems).
                  fst (stamps i) \<notin> factId ` set s)
            \<longrightarrow> count (fst out) = length (filter (\<lambda>m. truthy (cand_fact m)) mems) \<and>
                map factText (memories (fst out))
                  = map (\<lambda>m. the (cand_fact m)) (filter (\<lambda>m. truthy (cand_fact m)) mems) \<and>
                set (snd out) = set s \<union> set (memories (fst out)))"
proof -
  have unf: "out =
     (if messages = [] \<or> pairLoop messages 0 [] = [] then (\<lparr> count = 0, memories = [] \<rparr>, s)
      else case answer of
             None \<Rightarrow> (\<lparr> count = 0, memories = [] \<rparr>, s)
           | Some mems \<Rightarrow>
               (case addExtracted stamps 0 mems [] s of
                  Inl (e, s') \<Rightarrow> (\<lparr> count = 0, memories = [] \<rparr>, s')
                | Inr (addedMemories, s') \<Rightarrow>
                    (\<lparr> count = length addedMemories, memories = addedMemories \<rparr>, s')))"
    by (simp add: out_def extractMemoriesFromHistory_def Let_def)
  have store: "snd out = s \<or> (\<exists>mems. snd out =
      (case addExtracted stamps 0 mems [] s of Inl (e, s') \<Rightarrow> s' | Inr (a, s') \<Rightarrow> s'))"
  proof (cases "messages = [] \<or> pairLoop messages 0 [] = []")
    case True
    then show ?thesis unfolding unf by simp
  next
    case False
    show ?thesis
    proof (cases answer)
      case None
      with False show ?thesis unfolding unf by simp
    next
      case (Some mems)
      have "snd out = (case addExtracted stamps 0 mems [] s of Inl (e, s') \<Rightarrow> s' | Inr (a, s') \<Rightarrow> s')"
        using False Some unfolding unf by (simp split: sum.splits prod.splits)
      then show ?thesis by blast
    qed
  qed
  have sub: "set s \<subseteq> set (snd out)"
    and tagged: "\<forall>f \<in> set (snd out). f \<in> set s \<or> (mtype f = long_term \<and> source f = Some system)"
  proof -
    from store show "set s \<subseteq> set (snd out)"
    proof
      assume "snd out = s"
      then show ?thesis by simp
    next
      assume "\<exists>mems. snd out =
        (case addExtracted stamps 0 mems [] s of Inl (e, s') \<Rightarrow> s' | Inr (a, s') \<Rightarrow> s')"
      then obtain mems where "(case addExtracted stamps 0 mems [] s of
          Inl (e, s') \<Rightarrow> s' | Inr (a, s') \<Rightarrow> s') = snd out"
        by metis
      from addExtracted_store [OF this] show ?thesis by blast
    qed
    from store show "\<forall>f \<in> set (snd out). f \<in> set s \<or> (mtype f = long_term \<and> source f = Some system)"
    proof
      assume "snd out = s"
      then show ?thesis by simp
    next
      assume "\<exists>mems. snd out =
        (case addExtracted stamps 0 mems [] s of Inl (e, s') \<Rightarrow> s' | Inr (a, s') \<Rightarrow> s')"
      then obtain mems where "(case addExtracted stamps 0 mems [] s of
          Inl (e, s') \<Rightarrow> s' | Inr (a, s') \<Rightarrow> s') = snd out"
        by metis
      from addExtracted_store [OF this] show ?thesis by blast
    qed
  qed
  have empty: "pairLoop messages 0 [] = [] \<longrightarrow> out = (\<lparr> count = 0, memories = [] \<rparr>, s)"
    unfolding unf by simp
  have full: "\<forall>mems. answer = Some mems \<and> pairLoop messages 0 [] \<noteq> [] \<and>
              distinct (map (\<lambda>i. fst (stamps i))
                          [0..<length (filter (\<lambda>m. truthy (cand_fact m)) mems)]) \<and>
              (\<forall>i < length (filter (\<lambda>m. truthy (cand_fact m)) mems).
                  fst (stamps i) \<notin> factId ` set s)
            \<longrightarrow> count (fst out) = length (filter (\<lambda>m. truthy (cand_fact m)) mems) \<and>
                map factText (memories (fst out))
                  = map (\<lambda>m. the (cand_fact m)) (filter (\<lambda>m. truthy (cand_fact m)) mems) \<and>
                set (snd out) = set s \<union> set (memories (fst out))"
  proof (intro allI impI)
    fix mems
    assume a: "answer = Some mems \<and> pairLoop messages 0 [] \<noteq> [] \<and>
              distinct (map (\<lambda>i. fst (stamps i))
                          [0..<length (filter (\<lambda>m. truthy (cand_fact m)) mems)]) \<and>
              (\<forall>i < length (filter (\<lambda>m. truthy (cand_fact m)) mems).
                  fst (stamps i) \<notin> factId ` set s)"
    have ne: "messages \<noteq> []"
    proof
      assume "messages = []"
      then have "pairLoop messages 0 [] = []"
        by (simp only: pairLoop_Nil)
      with a show False by simp
    qed
    from a have d: "distinct (map (\<lambda>i. fst (stamps i))
                          [0..<0 + length (filter (\<lambda>m. truthy (cand_fact m)) mems)])"
      and fr: "\<forall>i \<in> {0..<0 + length (filter (\<lambda>m. truthy (cand_fact m)) mems)}.
                  fst (stamps i) \<notin> factId ` set s"
      by simp_all
    from addExtracted_fresh [OF d fr, of "[]"]
    obtain new s' where r: "addExtracted stamps 0 mems [] s = Inr (new, s')"
      and st: "set s' = set s \<union> set new"
      and tx: "map factText new = map (\<lambda>m. the (cand_fact m)) (filter (\<lambda>m. truthy (cand_fact m)) mems)"
      by auto
    from a ne r have o: "out = (\<lparr> count = length new, memories = new \<rparr>, s')"
      unfolding unf by simp
    have "length new = length (map factText new)"
      by simp
    also have "\<dots> = length (filter (\<lambda>m. truthy (cand_fact m)) mems)"
      by (simp only: tx length_map)
    finally have "length new = length (filter (\<lambda>m. truthy (cand_fact m)) mems)" .
    with o st tx show "count (fst out) = length (filter (\<lambda>m. truthy (cand_fact m)) mems) \<and>
                map factText (memories (fst out))
                  = map (\<lambda>m. the (cand_fact m)) (filter (\<lambda>m. truthy (cand_fact m)) mems) \<and>
                set (snd out) = set s \<union> set (memories (fst out))"
      by simp
  qed
  from sub tagged empty full show ?thesis
    by blast
qed

lemma pairLoop_two:
  "pairLoop [\<lparr> msgId = [0x31], role = js ''user'', content = [0x68, 0x69], msgTimestamp = [],
        imageUrl = None \<rparr>,
      \<lparr> msgId = [0x32], role = js ''assistant'', content = [0x79, 0x6F], msgTimestamp = [],
        imageUrl = None \<rparr>] 0 [] = [([0x68, 0x69], [0x79, 0x6F])]"
proof -
  have r: "findReply [\<lparr> msgId = [0x31], role = js ''user'', content = [0x68, 0x69], msgTimestamp = [],
        imageUrl = None \<rparr>,
      \<lparr> msgId = [0x32], role = js ''assistant'', content = [0x79, 0x6F], msgTimestamp = [],
        imageUrl = None \<rparr>] (0 + 1) = Some 1"
    by (simp add: findReply_def isReply_def truthy_def js_def upt_rec)
  have fin: "\<And>ms i ps. length ms \<le> i \<Longrightarrow> pairLoop ms i ps = ps"
    by (subst pairLoop.simps) simp
  show ?thesis
    by (subst pairLoop.simps)
      (simp add: fin Let_def findReply_def isReply_def truthy_def js_def upt_rec)
qed

text \<open>
  Claim C7 as stated fails: the limit of five is only asked of the model in the prompt.
  One conversation pair and an answer of six candidates add six facts.
\<close>

theorem extractMemoriesFromHistory_cap_counterexample:
  "count (fst (extractMemoriesFromHistory (\<lambda>i. (replicate (Suc i) 0x7A, 10 + int i))
     (Some [\<lparr> cand_fact = Some [0x61], cand_category = None, cand_importance = None \<rparr>,
      \<lparr> cand_fact = Some [0x62], cand_category = None, cand_importance = None \<rparr>,
      \<lparr> cand_fact = Some [0x63], cand_category = None, cand_importance = None \<rparr>,
      \<lparr> cand_fact = Some [0x64], cand_category = None, cand_importance = None \<rparr>,
      \<lparr> cand_fact = Some [0x65], cand_category = None, cand_importance = None \<rparr>,
      \<lparr> cand_fact = Some [0x66], cand_category = None, cand_importance = None \<rparr>])
     [\<lparr> msgId = [0x31], role = js ''user'', content = [0x68, 0x69], msgTimestamp = [],
        imageUrl = None \<rparr>,
      \<lparr> msgId = [0x32], role = js ''assistant'', content = [0x79, 0x6F], msgTimestamp = [],
        imageUrl = None \<rparr>] [])) = 6"
proof -
  have add: "addExtracted (\<lambda>i. (replicate (Suc i) 0x7A, 10 + int i)) 0
      [\<lparr> cand_fact = Some [0x61], cand_category = None, cand_importance = None \<rparr>,
      \<lparr> cand_fact = Some [0x62], cand_category = None, cand_importance = None \<rparr>,
      \<lparr> cand_fact = Some [0x63], cand_category = None, cand_importance = None \<rparr>,
      \<lparr> cand_fact = Some [0x64], cand_category = None, cand_importance = None \<rparr>,
      \<lparr> cand_fact = Some [0x65], cand_category = None, cand_importance = None \<rparr>,
      \<lparr> cand_fact = Some [0x66], cand_category = None, cand_importance = None \<rparr>] [] [] = Inr (x, y) \<Longrightarrow> length x = 6" for x y
    by (simp add: addMemoryFact_def storeAdd_def Let_def truthy_def) auto
  obtain x y where xy: "addExtracted (\<lambda>i. (replicate (Suc i) 0x7A, 10 + int i)) 0
      [\<lparr> cand_fact = Some [0x61], cand_category = None, cand_importance = None \<rparr>,
      \<lparr> cand_fact = Some [0x62], cand_category = None, cand_importance = None \<rparr>,
      \<lparr> cand_fact = Some [0x63], cand_category = None, cand_importance = None \<rparr>,
      \<lparr> cand_fact = Some [0x64], cand_category = None, cand_importance = None \<rparr>,
      \<lparr> cand_fact = Some [0x65], cand_category = None, cand_importance = None \<rparr>,
      \<lparr> cand_fact = Some [0x66], cand_category = None, cand_importance = None \<rparr>] [] [] = Inr (x, y)"
    by (simp add: addMemoryFact_def storeAdd_def Let_def truthy_def)
  from add [OF xy] xy show ?thesis
    by (simp add: extractMemoriesFromHistory_def Let_def pairLoop_two)
qed

text \<open>
  The store holds a fact of text "aa"; the model returns three candidates, one without
  text and one with the text "aa", which \<open>isDuplicateMemory\<close> would flag. Two facts are
  written, the duplicate among them. With no message nothing is written.
\<close>

theorem extractMemoriesFromHistory_writes_witness:
  "isDuplicateMemory [0x61, 0x61] [sample 0x61 1 long_term] \<and>
   count (fst (extractMemoriesFromHistory (\<lambda>i. (replicate (Suc i) 0x7A, 10 + int i))
     (Some [\<lparr> cand_fact = Some [0x61, 0x61], cand_category = None, cand_importance = None \<rparr>,
      \<lparr> cand_fact = None, cand_category = Some userinfo, cand_importance = Some 0.9 \<rparr>,
      \<lparr> cand_fact = Some [0x62], cand_category = Some userinfo, cand_importance = Some 0 \<rparr>])
     [\<lparr> msgId = [0x31], role = js ''user'', content = [0x68, 0x69], msgTimestamp = [],
        imageUrl = None \<rparr>,
      \<lparr> msgId = [0x32], role = js ''assistant'', content = [0x79, 0x6F], msgTimestamp = [],
        imageUrl = None \<rparr>] [sample 0x61 1 long_term])) = 2 \<and>
   map factText (memories (fst (extractMemoriesFromHistory (\<lambda>i. (replicate (Suc i) 0x7A, 10 + int i))
     (Some [\<lparr> cand_fact = Some [0x61, 0x61], cand_category = None, cand_importance = None \<rparr>,
      \<lparr> cand_fact = None, cand_category = Some userinfo, cand_importance = Some 0.9 \<rparr>,
      \<lparr> cand_fact = Some [0x62], cand_category = Some userinfo, cand_importance = Some 0 \<rparr>])
     [\<lparr> msgId = [0x31], role = js ''user'', content = [0x68, 0x69], msgTimestamp = [],
        imageUrl = None \<rparr>,
      \<lparr> msgId = [0x32], role = js ''assistant'', content = [0x79, 0x6F], msgTimestamp = [],
        imageUrl = None \<rparr>] [sample 0x61 1 long_term]))) = [[0x61, 0x61], [0x62]] \<and>
   extractMemoriesFromHistory (\<lambda>i. (replicate (Suc i) 0x7A, 10 + int i))
     (Some [\<lparr> cand_fact = Some [0x61, 0x61], cand_category = None, cand_importance = None \<rparr>,
      \<lparr> cand_fact = None, cand_category = Some userinfo, cand_importance = Some 0.9 \<rparr>,
      \<lparr> cand_fact = Some [0x62], cand_category = Some userinfo, cand_importance = Some 0 \<rparr>])
     [] [sample 0x61 1 long_term] = (\<lparr> count = 0, memories = [] \<rparr>, [sample 0x61 1 long_term])"
proof -
  let ?st = "(\<lambda>i. (replicate (Suc i) 0x7A, 10 + int i)) :: nat \<Rightarrow> jsstring \<times> int"
  let ?w = "[\<lparr> cand_fact = Some [0x61, 0x61], cand_category = None, cand_importance = None \<rparr>,
      \<lparr> cand_fact = None, cand_category = Some userinfo, cand_importance = Some 0.9 \<rparr>,
      \<lparr> cand_fact = Some [0x62], cand_category = Some userinfo, cand_importance = Some 0 \<rparr>]"
  let ?ms = "[\<lparr> msgId = [0x31], role = js ''user'', content = [0x68, 0x69], msgTimestamp = [],
        imageUrl = None \<rparr>,
      \<lparr> msgId = [0x32], role = js ''assistant'', content = [0x79, 0x6F], msgTimestamp = [],
        imageUrl = None \<rparr>]"
  let ?s = "[sample 0x61 1 long_term]"
  have dup: "isDuplicateMemory [0x61, 0x61] ?s"
    by (simp add: isDuplicateMemory_single similarTo_def sample_def)
  have k: "filter (\<lambda>m. truthy (cand_fact m)) ?w
      = [\<lparr> cand_fact = Some [0x61, 0x61], cand_category = None, cand_importance = None \<rparr>,
         \<lparr> cand_fact = Some [0x62], cand_category = Some userinfo, cand_importance = Some 0 \<rparr>]"
    by (simp add: truthy_def)
  have hyp: "Some ?w = Some ?w \<and> pairLoop ?ms 0 [] \<noteq> [] \<and>
      distinct (map (\<lambda>i. fst (?st i)) [0..<length (filter (\<lambda>m. truthy (cand_fact m)) ?w)]) \<and>
      (\<forall>i < length (filter (\<lambda>m. truthy (cand_fact m)) ?w). fst (?st i) \<notin> factId ` set ?s)"
    unfolding k by (simp add: pairLoop_two sample_def upt_rec)
  note w1 = extractMemoriesFromHistory_writes [of ?s ?st "Some ?w" ?ms]
  from w1 hyp
  have "count (fst (extractMemoriesFromHistory ?st (Some ?w) ?ms ?s))
          = length (filter (\<lambda>m. truthy (cand_fact m)) ?w) \<and>
        map factText (memories (fst (extractMemoriesFromHistory ?st (Some ?w) ?ms ?s)))
          = map (\<lambda>m. the (cand_fact m)) (filter (\<lambda>m. truthy (cand_fact m)) ?w)"
    by blast
  then have c: "count (fst (extractMemoriesFromHistory ?st (Some ?w) ?ms ?s)) = 2"
    and m: "map factText (memories (fst (extractMemoriesFromHistory ?st (Some ?w) ?ms ?s)))
          = [[0x61, 0x61], [0x62]]"
    unfolding k by simp_all
  note w2 = extractMemoriesFromHistory_writes [of ?s ?st "Some ?w" "[]"]
  have "pairLoop [] 0 [] = ([] :: (jsstring \<times> jsstring) list)"
    by (rule pairLoop_Nil)
  with w2 have e: "extractMemoriesFromHistory ?st (Some ?w) [] ?s = (\<lparr> count = 0, memories = [] \<rparr>, ?s)"
    by blast
  from dup c m e show ?thesis
    by blast
qed

section \<open>The lifecycle type along sequences of operations\<close>

lemma get_map:
  assumes "\<And>f. factId (h f) = factId f"
  shows "storeGet factId k (map h s) = map_option h (storeGet factId k s)"
  using assms by (induction s) (simp_all add: storeGet_def)

lemma get_insort:
  "factId f \<noteq> k \<Longrightarrow> storeGet factId k (insort_key factId f s) = storeGet factId k s"
  by (induction s) (simp_all add: storeGet_def)

lemma get_filter:
  "storeGet factId k (filter (\<lambda>f. factId f \<notin> J) s) = (if k \<in> J then None else storeGet factId k s)"
  by (induction s) (auto simp: storeGet_def)

lemma get_in_ids: "storeGet factId k s \<noteq> None \<Longrightarrow> k \<in> factId ` set s"
  by (auto simp: storeGet_None)

lemma ids_map:
  assumes "\<And>f. factId (h f) = factId f"
  shows "map factId (map h s) = map factId s"
  using assms by simp

lemma step_add:
  assumes d: "distinct (map factId s)" and g: "storeGet factId k s \<noteq> None"
  shows "distinct (map factId (step (Add stamp inp) s)) \<and>
         storeGet factId k (step (Add stamp inp) s) = storeGet factId k s"
proof (cases "addMemoryFact stamp inp s")
  case (Inl e)
  with d show ?thesis by simp
next
  case (Inr p)
  obtain f s' where p: "p = (f, s')" by (cases p)
  note a = addMemoryFact_Inr [OF Inr [unfolded p]]
  have fid: "factId f = fst stamp"
    using a(1) by simp
  with a(3) have nf: "factId f \<notin> factId ` set s"
    by simp
  with get_in_ids [OF g] have "factId f \<noteq> k"
    by blast
  then have "storeGet factId k (insort_key factId f s) = storeGet factId k s"
    by (rule get_insort)
  moreover have "distinct (map factId (insort_key factId f s))"
    by (rule distinct_ids_insort [OF d nf])
  ultimately show ?thesis
    using Inr p a(2) by simp
qed

lemma addSummaries_get:
  assumes "distinct (map factId s)" and "storeGet factId k s \<noteq> None"
    and "(case addSummaries stamps n xs s of Inl (e, s2) \<Rightarrow> s2 | Inr s2 \<Rightarrow> s2) = s'"
  shows "distinct (map factId s') \<and> storeGet factId k s' = storeGet factId k s"
  using assms
proof (induction xs arbitrary: n s)
  case Nil
  then show ?case by simp
next
  case (Cons x xs)
  let ?inp = "\<lparr> factText = x, category = shared_event, originalEventDate = None,
               mtype = long_term, importance = Some 0.8, source = Some system \<rparr>"
  show ?case
  proof (cases "addMemoryFact (stamps n) ?inp s")
    case (Inl e)
    with Cons.prems show ?thesis by simp
  next
    case (Inr p)
    obtain f s1 where p: "p = (f, s1)" by (cases p)
    from Inr p have st: "step (Add (stamps n) ?inp) s = s1"
      by simp
    from step_add [OF Cons.prems(1,2), of "stamps n" ?inp]
    have d1: "distinct (map factId s1)" and g1: "storeGet factId k s1 = storeGet factId k s"
      unfolding st by simp_all
    from Cons.prems(2) g1 have n1: "storeGet factId k s1 \<noteq> None"
      by simp
    from Inr p Cons.prems(3)
    have "(case addSummaries stamps (Suc n) xs s1 of Inl (e, s2) \<Rightarrow> s2 | Inr s2 \<Rightarrow> s2) = s'"
      by simp
    from Cons.IH [OF d1 n1 this] g1 show ?thesis
      by simp
  qed
qed

lemma lifecycle_flip:
  assumes d: "distinct (map factId s)" and l: "lifecycle s k = Some long_term"
  shows "distinct (map factId (map (\<lambda>f. if factId f \<in> K then f\<lparr> mtype := long_term \<rparr> else f) s)) \<and>
         lifecycle (map (\<lambda>f. if factId f \<in> K then f\<lparr> mtype := long_term \<rparr> else f) s) k
           = Some long_term"
proof -
  let ?h = "\<lambda>f :: MemoryFact. if factId f \<in> K then f\<lparr> mtype := long_term \<rparr> else f"
  have ids: "\<And>f. factId (?h f) = factId f"
    by simp
  from l obtain x where x: "storeGet factId k s = Some x" "mtype x = long_term"
    by (auto simp: lifecycle_def)
  have "storeGet factId k (map ?h s) = map_option ?h (storeGet factId k s)"
    by (rule get_map [OF ids])
  with x have "lifecycle (map ?h s) k = Some long_term"
    by (simp add: lifecycle_def)
  moreover have "distinct (map factId (map ?h s))"
    using d by (simp only: ids_promoted)
  ultimately show ?thesis by blast
qed

lemma step_promote:
  assumes d: "distinct (map factId s)" and l: "lifecycle s k = Some long_term"
  shows "distinct (map factId (step (Promote j) s)) \<and> lifecycle (step (Promote j) s) k = Some long_term"
proof -
  have "promoteToLongTerm j s = map (\<lambda>f. if factId f \<in> {j} then f\<lparr> mtype := long_term \<rparr> else f) s"
    using promote_map [OF d, of j] by simp
  with lifecycle_flip [OF d l, of "{j}"] show ?thesis
    by simp
qed

lemma step_organize:
  assumes d: "distinct (map factId s)" and l: "lifecycle s k = Some long_term"
  shows "distinct (map factId (step (Organize a) s)) \<and> lifecycle (step (Organize a) s) k = Some long_term"
proof -
  from organizeMemories_flips [OF d, of a]
  obtain K where "snd (organizeMemories a s)
      = map (\<lambda>f. if factId f \<in> K then f\<lparr> mtype := long_term \<rparr> else f) s"
    by blast
  with lifecycle_flip [OF d l, of K] show ?thesis
    by simp
qed

lemma step_delete:
  assumes d: "distinct (map factId s)" and l: "lifecycle s k = Some long_term"
  shows "distinct (map factId (step (Delete j) s)) \<and>
         (lifecycle (step (Delete j) s) k = Some long_term \<or> lifecycle (step (Delete j) s) k = None)"
proof -
  have f: "deleteMemoryFact j s = filter (\<lambda>f. factId f \<notin> {j}) s"
    by (simp add: deleteMemoryFact_def storeDelete_def)
  have "distinct (map factId (filter (\<lambda>f. factId f \<notin> {j}) s))"
    using d by (rule distinct_map_filter)
  moreover have "lifecycle (filter (\<lambda>f. factId f \<notin> {j}) s) k = Some long_term
      \<or> lifecycle (filter (\<lambda>f. factId f \<notin> {j}) s) k = None"
    using l unfolding lifecycle_def get_filter by simp
  ultimately show ?thesis
    by (simp add: f)
qed

lemma step_update:
  assumes d: "distinct (map factId s)" and l: "lifecycle s k = Some long_term"
    and u: "p_mtype u \<noteq> Some short_term" "p_factId u = None"
  shows "distinct (map factId (step (Update j u) s)) \<and> lifecycle (step (Update j u) s) k = Some long_term"
proof (cases "storeGet factId j s")
  case None
  with d l show ?thesis
    by (simp add: updateMemoryFact_def)
next
  case (Some f)
  from storeGet_Some [OF Some] have f: "f \<in> set s" "factId f = j"
    by simp_all
  let ?g = "mergeUpdates f u"
  have gid: "factId ?g = j"
    using u(2) f(2) by (simp add: mergeUpdates_def)
  have gty: "mtype f = long_term \<Longrightarrow> mtype ?g = long_term"
  proof (cases "p_mtype u")
    case None
    assume "mtype f = long_term"
    with None show ?thesis by (simp add: mergeUpdates_def)
  next
    case (Some v)
    with u(1) have "v = long_term"
      by (cases v) simp_all
    with Some show ?thesis by (simp add: mergeUpdates_def)
  qed
  let ?h = "\<lambda>r' :: MemoryFact. if factId r' = j then ?g else r'"
  have ids: "\<And>r. factId (?h r) = factId r"
    using gid by simp
  have ex: "list_ex (\<lambda>r'. factId r' = factId ?g) s"
    using f gid by (auto simp: list_ex_iff)
  have st: "step (Update j u) s = map ?h s"
    using Some ex gid by (simp add: updateMemoryFact_def storePut_def)
  from l obtain x where x: "storeGet factId k s = Some x" "mtype x = long_term"
    by (auto simp: lifecycle_def)
  have "storeGet factId k (map ?h s) = map_option ?h (storeGet factId k s)"
    by (rule get_map [OF ids])
  with x have got: "storeGet factId k (map ?h s) = Some (?h x)"
    by simp
  have "mtype (?h x) = long_term"
  proof (cases "factId x = j")
    case True
    from storeGet_Some [OF x(1)] have "factId x = k" by simp
    with True x(1) Some have "x = f" by simp
    with x(2) gty True show ?thesis by simp
  next
    case False
    with x(2) show ?thesis by simp
  qed
  with got have "lifecycle (map ?h s) k = Some long_term"
    by (simp add: lifecycle_def)
  moreover have "distinct (map factId (map ?h s))"
  proof -
    have "map factId (map ?h s) = map factId s"
      by (rule ids_map [OF ids])
    with d show ?thesis by (simp only:)
  qed
  ultimately show ?thesis
    by (simp only: st)
qed

lemma step_consolidate:
  assumes d: "distinct (map factId s)" and l: "lifecycle s k = Some long_term"
  shows "distinct (map factId (step (Consolidate a b st) s)) \<and>
         (lifecycle (step (Consolidate a b st) s) k = Some long_term \<or>
          lifecycle (step (Consolidate a b st) s) k = None)"
proof -
  let ?s1 = "snd (organizeMemories a s)"
  let ?lt = "getLongTermMemories s"
  from step_organize [OF d l, of a]
  have d1: "distinct (map factId ?s1)" and l1: "lifecycle ?s1 k = Some long_term"
    by simp_all
  then have g1: "storeGet factId k ?s1 \<noteq> None"
    by (auto simp: lifecycle_def)
  have after_add: "\<And>summaries s2.
      (case addSummaries st 0 summaries ?s1 of Inl (e, s2) \<Rightarrow> s2 | Inr s2 \<Rightarrow> s2) = s2 \<Longrightarrow>
      distinct (map factId s2) \<and> lifecycle s2 k = Some long_term"
  proof -
    fix summaries s2
    assume "(case addSummaries st 0 summaries ?s1 of Inl (e, s2) \<Rightarrow> s2 | Inr s2 \<Rightarrow> s2) = s2"
    from addSummaries_get [OF d1 g1 this] l1
    show "distinct (map factId s2) \<and> lifecycle s2 k = Some long_term"
      by (simp add: lifecycle_def)
  qed
  show ?thesis
  proof (cases "8 \<le> length ?lt")
    case False
    with d1 l1 show ?thesis
      by (simp add: consolidate_unfold)
  next
    case True
    show ?thesis
    proof (cases b)
      case None
      with True d1 l1 show ?thesis
        by (simp add: consolidate_unfold)
    next
      case (Some summaries)
      show ?thesis
      proof (cases "addSummaries st 0 summaries ?s1")
        case (Inl p)
        obtain e s2 where p: "p = (e, s2)" by (cases p)
        from Inl p have "(case addSummaries st 0 summaries ?s1 of
            Inl (e, s2) \<Rightarrow> s2 | Inr s2 \<Rightarrow> s2) = s2"
          by simp
        from after_add [OF this] Inl p Some True show ?thesis
          by (simp add: consolidate_unfold)
      next
        case (Inr s2)
        then have "(case addSummaries st 0 summaries ?s1 of
            Inl (e, s2) \<Rightarrow> s2 | Inr s2 \<Rightarrow> s2) = s2"
          by simp
        from after_add [OF this] have d2: "distinct (map factId s2)"
          and l2: "lifecycle s2 k = Some long_term"
          by simp_all
        show ?thesis
        proof (cases "summaries = []")
          case True
          with d2 l2 Inr Some \<open>8 \<le> length ?lt\<close> show ?thesis
            by (simp add: consolidate_unfold)
        next
          case False
          have "distinct (map factId (filter (\<lambda>f. factId f \<notin> factId ` set ?lt) s2))"
            using d2 by (rule distinct_map_filter)
          moreover have "lifecycle (filter (\<lambda>f. factId f \<notin> factId ` set ?lt) s2) k = Some long_term
              \<or> lifecycle (filter (\<lambda>f. factId f \<notin> factId ` set ?lt) s2) k = None"
            using l2 unfolding lifecycle_def get_filter by simp
          ultimately show ?thesis
            using False Inr Some \<open>8 \<le> length ?lt\<close> by (simp add: consolidate_unfold)
        qed
      qed
    qed
  qed
qed

lemma step_keeps:
  assumes d: "distinct (map factId s)" and l: "lifecycle s k = Some long_term"
    and b: "keepsType x"
  shows "distinct (map factId (step x s)) \<and>
         (lifecycle (step x s) k = Some long_term \<or> lifecycle (step x s) k = None)"
proof (cases x)
  case (Add stamp inp)
  from l have "storeGet factId k s \<noteq> None"
    by (auto simp: lifecycle_def)
  from step_add [OF d this, of stamp inp] l Add show ?thesis
    by (simp add: lifecycle_def)
next
  case (Promote j)
  with step_promote [OF d l, of j] show ?thesis by simp
next
  case (Update j u)
  with b have "p_mtype u \<noteq> Some short_term" "p_factId u = None"
    by simp_all
  from step_update [OF d l this, of j] Update show ?thesis by simp
next
  case (Organize a)
  with step_organize [OF d l, of a] show ?thesis by simp
next
  case (Consolidate a b' st)
  with step_consolidate [OF d l, of a b' st] show ?thesis by simp
next
  case (Delete j)
  with step_delete [OF d l, of j] show ?thesis by simp
qed

text \<open>
  Claim C2, as amended. On a store with one record per id, a fact that is long-term
  stays long-term for as long as it exists, through every sequence of \<open>add\<close>,
  \<open>promote\<close>, \<open>organize\<close>, \<open>consolidate\<close> and \<open>delete\<close> operations and of updates that
  neither set the type to short-term nor change the id.
\<close>

theorem lifecycle_never_reverts:
  assumes "distinct (map factId s)" and "lifecycle s k = Some long_term"
    and "list_all keepsType ops" and "alive k ops s"
  shows "lifecycle (fold step ops s) k = Some long_term"
  using assms
proof (induction ops arbitrary: s)
  case Nil
  then show ?case by simp
next
  case (Cons x xs)
  from Cons.prems(3) have kx: "keepsType x" and kxs: "list_all keepsType xs"
    by simp_all
  from Cons.prems(4) have al: "alive k xs (step x s)"
    by simp
  then have "storeGet factId k (step x s) \<noteq> None"
    by (cases xs) simp_all
  then have "lifecycle (step x s) k \<noteq> None"
    by (simp add: lifecycle_def)
  with step_keeps [OF Cons.prems(1,2) kx]
  have d1: "distinct (map factId (step x s))" and l1: "lifecycle (step x s) k = Some long_term"
    by blast+
  from Cons.IH [OF d1 l1 kxs al] show ?case
    by simp
qed

text \<open>
  A long-term fact is edited, another fact is promoted and deleted, a third is added
  and the store is organized: the first fact is long-term at the end.
\<close>

theorem lifecycle_never_reverts_witness:
  "distinct (map factId [sample 0x61 1 long_term, sample 0x62 2 short_term]) \<and>
   lifecycle [sample 0x61 1 long_term, sample 0x62 2 short_term] [0x61] = Some long_term \<and>
   list_all keepsType
     [Update [0x61]
        \<lparr> p_factId = None, p_factText = Some [0x7A], p_category = None, p_timestamp = None,
          p_originalEventDate = None, p_mtype = None, p_importance = None, p_source = None \<rparr>,
      Promote [0x62], Delete [0x62],
      Add ([0x63], 3)
        \<lparr> factText = [0x63], category = userinfo, originalEventDate = None,
          mtype = short_term, importance = None, source = Some conversation \<rparr>,
      Organize None] \<and>
   alive [0x61]
     [Update [0x61]
        \<lparr> p_factId = None, p_factText = Some [0x7A], p_category = None, p_timestamp = None,
          p_originalEventDate = None, p_mtype = None, p_importance = None, p_source = None \<rparr>,
      Promote [0x62], Delete [0x62],
      Add ([0x63], 3)
        \<lparr> factText = [0x63], category = userinfo, originalEventDate = None,
          mtype = short_term, importance = None, source = Some conversation \<rparr>,
      Organize None]
     [sample 0x61 1 long_term, sample 0x62 2 short_term] \<and>
   lifecycle (fold step
     [Update [0x61]
        \<lparr> p_factId = None, p_factText = Some [0x7A], p_category = None, p_timestamp = None,
          p_originalEventDate = None, p_mtype = None, p_importance = None, p_source = None \<rparr>,
      Promote [0x62], Delete [0x62],
      Add ([0x63], 3)
        \<lparr> factText = [0x63], category = userinfo, originalEventDate = None,
          mtype = short_term, importance = None, source = Some conversation \<rparr>,
      Organize None]
     [sample 0x61 1 long_term, sample 0x62 2 short_term]) [0x61] = Some long_term"
proof -
  have d: "distinct (map factId [sample 0x61 1 long_term, sample 0x62 2 short_term])"
    by (simp add: sample_def)
  have l: "lifecycle [sample 0x61 1 long_term, sample 0x62 2 short_term] [0x61] = Some long_term"
    by (simp add: lifecycle_def storeGet_def sample_def)
  have k: "list_all keepsType
     [Update [0x61]
        \<lparr> p_factId = None, p_factText = Some [0x7A], p_category = None, p_timestamp = None,
          p_originalEventDate = None, p_mtype = None, p_importance = None, p_source = None \<rparr>,
      Promote [0x62], Delete [0x62],
      Add ([0x63], 3)
        \<lparr> factText = [0x63], category = userinfo, originalEventDate = None,
          mtype = short_term, importance = None, source = Some conversation \<rparr>,
      Organize None]"
    by simp
  have a: "alive [0x61]
     [Update [0x61]
        \<lparr> p_factId = None, p_factText = Some [0x7A], p_category = None, p_timestamp = None,
          p_originalEventDate = None, p_mtype = None, p_importance = None, p_source = None \<rparr>,
      Promote [0x62], Delete [0x62],
      Add ([0x63], 3)
        \<lparr> factText = [0x63], category = userinfo, originalEventDate = None,
          mtype = short_term, importance = None, source = Some conversation \<rparr>,
      Organize None]
     [sample 0x61 1 long_term, sample 0x62 2 short_term]"
    by (simp add: updateMemoryFact_def promoteToLongTerm_def deleteMemoryFact_def
        addMemoryFact_def organizeMemories_def getShortTermMemories_def byNewest_def
        storeGet_def storePut_def storeAdd_def storeDelete_def mergeUpdates_def Let_def sample_def)
  from d l k a lifecycle_never_reverts [OF d l k a] show ?thesis
    by (intro conjI)
qed

text \<open>
  Claim C2 as stated fails: \<open>updateMemoryFact\<close> merges any partial record, so an update
  that carries \<open>type: 'short_term'\<close> turns a long-term fact back into a short-term one.
\<close>

theorem lifecycle_update_counterexample:
  "lifecycle [sample 0x61 1 long_term] [0x61] = Some long_term \<and>
   lifecycle
     (step (Update [0x61]
        \<lparr> p_factId = None, p_factText = None, p_category = None, p_timestamp = None,
          p_originalEventDate = None, p_mtype = Some short_term, p_importance = None,
          p_source = None \<rparr>)
       [sample 0x61 1 long_term]) [0x61] = Some short_term"
  by (simp add: lifecycle_def updateMemoryFact_def storeGet_def storePut_def mergeUpdates_def
      sample_def)

section \<open>Properties of the embedding and of the similarity\<close>

lemma length_featureVector: "length (featureVector fs) = 256"
proof -
  have "\<And>v. length (foldl (\<lambda>vector (gram, count).
              vector[hashString gram mod 256 := vector ! (hashString gram mod 256) + count]) v fs) = length v"
    by (induction fs) (auto split: prod.splits)
  then show ?thesis by (simp add: featureVector_def)
qed

lemma foldl_squares:
  "foldl (\<lambda>sum val. sum + real val * real val) a v = a + real (sum_list (map (\<lambda>x. x * x) v))"
  by (induction v arbitrary: a) simp_all

lemma length_computeTextEmbedding: "length (computeTextEmbedding L t) = 256"
  by (simp add: computeTextEmbedding_def Let_def length_featureVector)

lemma sum_squares_zero_iff:
  "sum_list (map (\<lambda>x. x * x) (v :: nat list)) = 0 \<longleftrightarrow> v = replicate (length v) 0"
  by (induction v) auto

lemma cosLoop:
  "foldl (\<lambda>(d, m1, m2) i.
            (d + vec1 ! i * vec2 ! i, m1 + vec1 ! i * vec1 ! i, m2 + vec2 ! i * vec2 ! i))
      (d0, a0, b0) [0..<n]
   = (d0 + (\<Sum>i<n. vec1 ! i * vec2 ! i), a0 + (\<Sum>i<n. vec1 ! i * vec1 ! i),
      b0 + (\<Sum>i<n. vec2 ! i * vec2 ! i :: real))"
  by (induction n) (simp_all add: algebra_simps)

lemma cosineSimilarity_eq:
  "cosineSimilarity vec1 vec2 =
     (if length vec1 \<noteq> length vec2 then 0
      else if sqrt (\<Sum>i<length vec1. vec1 ! i * vec1 ! i) = 0 \<or>
              sqrt (\<Sum>i<length vec1. vec2 ! i * vec2 ! i) = 0 then 0
      else (\<Sum>i<length vec1. vec1 ! i * vec2 ! i) /
           (sqrt (\<Sum>i<length vec1. vec1 ! i * vec1 ! i) * sqrt (\<Sum>i<length vec1. vec2 ! i * vec2 ! i)))"
  unfolding cosineSimilarity_def cosLoop by (simp only: Let_def prod.case add_0 split: if_splits)

lemma sum_nth_sum_list: "(\<Sum>i<length xs. f (xs ! i)) = sum_list (map f xs)"
proof -
  have "sum_list (map f xs) = (\<Sum>i<length (map f xs). map f xs ! i)"
    by (simp only: sum_list_sum_nth atLeast0LessThan)
  then show ?thesis by simp
qed


lemma sum_list_scaled:
  "(\<Sum>x\<leftarrow>map (\<lambda>v. real v / m) v. x * x) = real (sum_list (map (\<lambda>x. x * x) v)) / (m * m)"
  by (induction v) (simp_all add: add_divide_distrib)

lemma featureVector_zero_iff:
  "sum_list (map (\<lambda>x. x * x) (featureVector fs)) = 0 \<longleftrightarrow> featureVector fs = replicate 256 0"
  using sum_squares_zero_iff [of "featureVector fs"] by (simp add: length_featureVector)

lemma bigramFeatures_short: "length t < 2 \<Longrightarrow> bigramFeatures L t = []"
  by (simp add: bigramFeatures_def)

lemma featureVector_Nil: "featureVector [] = replicate 256 0"
  by (simp add: featureVector_def)

lemma embedding_zero:
  assumes "featureVector (bigramFeatures L t) = replicate 256 0"
  shows "computeTextEmbedding L t = replicate 256 0"
  using assms by (simp add: computeTextEmbedding_def Let_def foldl_squares)

lemma cos_zero_query: "cosineSimilarity (replicate n 0) e = 0"
  by (simp add: cosineSimilarity_eq)

lemma bestOf_none:
  assumes "\<forall>s \<in> set stickers. cosineSimilarity q (embedding s) \<le> 0 \<or> cosineSimilarity q (embedding s) < th"
  shows "bestOf q th stickers = (None, 0)"
  using assms unfolding bestOf_def
  by (induction stickers rule: rev_induct) (auto simp: Let_def)

lemma bestOf_some:
  "bestOf q th stickers = (Some m, b) \<Longrightarrow>
     m \<in> set stickers \<and> cosineSimilarity q (embedding m) = b \<and> th \<le> b \<and> 0 < b"
proof (induction stickers arbitrary: m b rule: rev_induct)
  case Nil
  then show ?case by (simp add: bestOf_def)
next
  case (snoc x xs)
  obtain bm bs where prev: "bestOf q th xs = (bm, bs)"
    by (cases "bestOf q th xs")
  have step: "bestOf q th (xs @ [x]) =
      (if cosineSimilarity q (embedding x) > bs \<and> cosineSimilarity q (embedding x) \<ge> th
       then (Some x, cosineSimilarity q (embedding x)) else (bm, bs))"
    using prev by (simp add: bestOf_def Let_def)
  have bs0: "0 \<le> bs"
  proof (cases bm)
    case None
    have "\<And>c. bestOf q th xs = (None, c) \<Longrightarrow> c = 0"
      unfolding bestOf_def
      by (induction xs rule: rev_induct) (auto simp: Let_def split: prod.splits if_splits)
    with prev None show ?thesis by simp
  next
    case (Some m')
    with prev snoc.IH [of m' bs] show ?thesis by simp
  qed
  show ?case
  proof (cases "cosineSimilarity q (embedding x) > bs \<and> cosineSimilarity q (embedding x) \<ge> th")
    case True
    with step snoc.prems bs0 show ?thesis by auto
  next
    case False
    with step snoc.prems have "bestOf q th xs = (Some m, b)"
      using prev by auto
    with snoc.IH [of m b] show ?thesis by auto
  qed
qed

lemma query_short:
  assumes "length d < 2"
  shows "computeTextEmbedding L d = replicate 256 0"
  using assms by (simp add: embedding_zero bigramFeatures_short featureVector_Nil)

text \<open>
  Claim C10. A descriptor of fewer than two code units has no bigram, so the query
  embedding is the zero vector, every similarity is 0 and never exceeds the running
  best 0: no match is returned and the cache, usage counts included, is unchanged.
\<close>

theorem findSimilarSticker_short:
  assumes "length d < 2"
  shows "findSimilarSticker L ty d th db = (None, db)"
proof -
  have "bestOf (replicate 256 0) th (filter (\<lambda>s. stype s = ty) db) = (None, 0)"
    by (rule bestOf_none) (simp add: cos_zero_query)
  then show ?thesis
    by (simp add: findSimilarSticker_def Let_def query_short [OF assms])
qed

lemma findSimilarSticker_match:
  assumes "fst (findSimilarSticker L ty d th db) = Some m"
  shows "m \<in> set db \<and> stype m = ty \<and>
         th \<le> cosineSimilarity (computeTextEmbedding L d) (embedding m)"
proof -
  let ?q = "computeTextEmbedding L d"
  let ?xs = "filter (\<lambda>s. stype s = ty) db"
  obtain bm bs where b: "bestOf ?q th ?xs = (bm, bs)"
    by (cases "bestOf ?q th ?xs")
  with assms have "bm = Some m"
    by (simp add: findSimilarSticker_def Let_def split: option.splits)
  with b have "bestOf ?q th ?xs = (Some m, bs)"
    by simp
  from bestOf_some [OF this] show ?thesis
    by auto
qed

text \<open>
  Claim C5. A match returned by \<open>findSimilarSticker\<close> is a sticker of the cache of the
  requested type whose similarity to the query embedding is not below the threshold;
  when no sticker of that type reaches the threshold, there is no match.
\<close>

theorem findSimilarSticker_sound:
  "(fst (findSimilarSticker L ty d th db) = Some m \<longrightarrow>
      m \<in> set db \<and> stype m = ty \<and>
      \<not> cosineSimilarity (computeTextEmbedding L d) (embedding m) < th) \<and>
   ((\<forall>s \<in> set db. stype s = ty \<longrightarrow>
        cosineSimilarity (computeTextEmbedding L d) (embedding s) < th) \<longrightarrow>
      fst (findSimilarSticker L ty d th db) = None)"
proof (intro conjI impI)
  assume a: "fst (findSimilarSticker L ty d th db) = Some m"
  from findSimilarSticker_match [OF a]
  show "m \<in> set db" and "stype m = ty"
    and "\<not> cosineSimilarity (computeTextEmbedding L d) (embedding m) < th"
    by auto
next
  assume none: "\<forall>s \<in> set db. stype s = ty \<longrightarrow>
        cosineSimilarity (computeTextEmbedding L d) (embedding s) < th"
  show "fst (findSimilarSticker L ty d th db) = None"
  proof (cases "fst (findSimilarSticker L ty d th db)")
    case None
    then show ?thesis .
  next
    case (Some m')
    from findSimilarSticker_match [OF Some] none show ?thesis
      by fastforce
  qed
qed

lemma sum_map2_nth:
  "length xs = length ys \<Longrightarrow> (\<Sum>i<length xs. f (xs ! i) (ys ! i)) = sum_list (map2 f xs ys)"
proof -
  assume l: "length xs = length ys"
  have "sum_list (map2 f xs ys) = (\<Sum>i<length (map2 f xs ys). map2 f xs ys ! i)"
    by (simp only: sum_list_sum_nth atLeast0LessThan)
  with l show ?thesis by simp
qed

lemma cos_embeddings:
  fixes L :: "jsstring \<Rightarrow> jsstring"
  defines "va \<equiv> \<lambda>t. featureVector (bigramFeatures L t)"
  assumes A: "sum_list (map (\<lambda>x. x * x) (va t1)) = A" and B: "sum_list (map (\<lambda>x. x * x) (va t2)) = B"
    and D: "sum_list (map2 (*) (va t1) (va t2)) = D" and A0: "0 < A" and B0: "0 < B"
  shows "cosineSimilarity (computeTextEmbedding L t1) (computeTextEmbedding L t2)
         = real D / (sqrt (real A) * sqrt (real B))"
proof -
  define ma where "ma = sqrt (real A)"
  define mb where "mb = sqrt (real B)"
  have ma: "0 < ma" and mb: "0 < mb"
    using A0 B0 by (simp_all add: ma_def mb_def)
  have e1: "computeTextEmbedding L t1 = map (\<lambda>x. real x / ma) (va t1)"
    using ma A unfolding ma_def va_def by (simp add: computeTextEmbedding_def Let_def foldl_squares)
  have e2: "computeTextEmbedding L t2 = map (\<lambda>x. real x / mb) (va t2)"
    using mb B unfolding mb_def va_def by (simp add: computeTextEmbedding_def Let_def foldl_squares)
  have la: "length (va t1) = 256" and lb: "length (va t2) = 256"
    by (simp_all add: va_def length_featureVector)
  have s1: "(\<Sum>i<256. (real (va t1 ! i) / ma) * (real (va t1 ! i) / ma)) = 1"
  proof -
    have "(\<Sum>i<length (map (\<lambda>x. real x / ma) (va t1)).
             (map (\<lambda>x. real x / ma) (va t1) ! i) * (map (\<lambda>x. real x / ma) (va t1) ! i))
          = (\<Sum>x\<leftarrow>map (\<lambda>x. real x / ma) (va t1). x * x)"
      by (rule sum_nth_sum_list [where f = "\<lambda>x. x * x"])
    also have "\<dots> = real A / (ma * ma)"
      by (simp only: sum_list_scaled A)
    also have "\<dots> = 1"
      using A0 by (simp add: ma_def)
    finally show ?thesis
      by (simp add: la)
  qed
  have s2: "(\<Sum>i<256. (real (va t2 ! i) / mb) * (real (va t2 ! i) / mb)) = 1"
  proof -
    have "(\<Sum>i<length (map (\<lambda>x. real x / mb) (va t2)).
             (map (\<lambda>x. real x / mb) (va t2) ! i) * (map (\<lambda>x. real x / mb) (va t2) ! i))
          = (\<Sum>x\<leftarrow>map (\<lambda>x. real x / mb) (va t2). x * x)"
      by (rule sum_nth_sum_list [where f = "\<lambda>x. x * x"])
    also have "\<dots> = real B / (mb * mb)"
      by (simp only: sum_list_scaled B)
    also have "\<dots> = 1"
      using B0 by (simp add: mb_def)
    finally show ?thesis
      by (simp add: lb)
  qed
  have "(\<Sum>i<256. real (va t1 ! i * va t2 ! i)) = real (\<Sum>i<length (va t1). va t1 ! i * va t2 ! i)"
    by (simp add: la)
  also have "\<dots> = real D"
    using sum_map2_nth [of "va t1" "va t2" "(*)"] la lb D by simp
  finally have d0: "(\<Sum>i<256. real (va t1 ! i) * real (va t2 ! i)) = real D"
    by simp
  have "(\<Sum>i<256. (real (va t1 ! i) / ma) * (real (va t2 ! i) / mb))
        = (\<Sum>i<256. real (va t1 ! i) * real (va t2 ! i)) / (ma * mb)"
    by (simp add: sum_divide_distrib)
  with d0 have d: "(\<Sum>i<256. (real (va t1 ! i) / ma) * (real (va t2 ! i) / mb)) = real D / (ma * mb)"
    by simp
  show ?thesis
    unfolding cosineSimilarity_eq e1 e2
    using la lb s1 s2 d by (simp add: ma_def mb_def)
qed

section \<open>Rounding to the nearest double\<close>

lemma roundEven_error: "\<bar>of_int (roundEven y) - y\<bar> \<le> 1 / 2"
proof -
  have "of_int \<lfloor>y\<rfloor> \<le> y" and "y < of_int \<lfloor>y\<rfloor> + 1"
    by linarith+
  then show ?thesis
    unfolding roundEven_def Let_def by (auto simp: abs_le_iff)
qed

lemma roundEven_near:
  assumes "\<bar>y - of_int m\<bar> < 1 / 2"
  shows "roundEven y = m"
proof (cases "of_int m \<le> y")
  case True
  with assms have "\<lfloor>y\<rfloor> = m"
    by (intro floor_unique) (simp_all add: abs_less_iff)
  with True assms show ?thesis
    by (simp add: roundEven_def Let_def abs_less_iff)
next
  case False
  with assms have f: "\<lfloor>y\<rfloor> = m - 1"
    by (intro floor_unique) (simp_all add: abs_less_iff)
  from False assms have "1 / 2 < y - of_int (m - 1)"
    by (simp add: abs_less_iff)
  with f show ?thesis
    by (simp add: roundEven_def Let_def)
qed

lemma rnd_zero: "rnd 0 = 0"
  by (simp add: rnd_def)

lemma binade:
  assumes "0 < a"
  shows "2 powr of_int \<lfloor>log 2 a\<rfloor> \<le> a" and "a < 2 powr (of_int \<lfloor>log 2 a\<rfloor> + 1)"
proof -
  have "(of_int \<lfloor>log 2 a\<rfloor> \<le> log 2 a) = (2 powr of_int \<lfloor>log 2 a\<rfloor> \<le> a)"
    using assms by (intro le_log_iff) simp_all
  then show "2 powr of_int \<lfloor>log 2 a\<rfloor> \<le> a"
    by simp
  have "log 2 a < of_int \<lfloor>log 2 a\<rfloor> + 1"
    by linarith
  moreover have "(log 2 a < of_int \<lfloor>log 2 a\<rfloor> + 1) = (a < 2 powr (of_int \<lfloor>log 2 a\<rfloor> + 1))"
    using assms by (intro log_less_iff) simp_all
  ultimately show "a < 2 powr (of_int \<lfloor>log 2 a\<rfloor> + 1)"
    by (simp only:)
qed

lemma rnd_error: "\<bar>rnd x - x\<bar> \<le> \<bar>x\<bar> / 2 ^ 53"
proof (cases "x = 0")
  case True
  then show ?thesis by (simp add: rnd_def)
next
  case False
  define a where "a = \<bar>x\<bar>"
  define e :: real where "e = of_int \<lfloor>log 2 a\<rfloor>"
  define y where "y = a * 2 powr (52 - e)"
  define m :: real where "m = of_int (roundEven y)"
  have a: "0 < a"
    using False by (simp add: a_def)
  have lo: "2 powr e \<le> a"
    unfolding e_def by (rule binade(1) [OF a])
  have r: "rnd x = sgn x * m * 2 powr (e - 52)"
    using False by (simp add: rnd_def Let_def m_def y_def e_def a_def)
  have ya: "y * 2 powr (e - 52) = a"
  proof -
    have "2 powr (52 - e) * 2 powr (e - 52) = 2 powr 0"
      by (simp only: powr_add [symmetric]) simp
    then show ?thesis
      by (simp add: y_def mult.assoc)
  qed
  have x: "x = sgn x * a"
    by (simp add: a_def sgn_mult_abs)
  have "rnd x - x = sgn x * ((m - y) * 2 powr (e - 52))"
  proof -
    have "sgn x * ((m - y) * 2 powr (e - 52)) = sgn x * m * 2 powr (e - 52) - sgn x * (y * 2 powr (e - 52))"
      by (simp add: algebra_simps)
    also have "\<dots> = rnd x - x"
      using r x by (simp only: ya)
    finally show ?thesis by simp
  qed
  then have "\<bar>rnd x - x\<bar> = \<bar>m - y\<bar> * 2 powr (e - 52)"
    using False by (simp add: abs_mult abs_sgn_eq)
  also have "\<dots> \<le> 1 / 2 * 2 powr (e - 52)"
    using roundEven_error [of y] by (intro mult_right_mono) (simp_all add: m_def)
  also have "\<dots> = 2 powr e / 2 ^ 53"
  proof -
    have "2 powr (e - 52) = 2 powr e / 2 powr 52"
      by (simp add: powr_diff)
    also have "(2::real) powr 52 = 2 ^ 52"
      using powr_realpow [of "2::real" 52] by simp
    finally show ?thesis by simp
  qed
  also have "\<dots> \<le> a / 2 ^ 53"
    using lo by (simp add: divide_right_mono)
  finally show ?thesis
    by (simp add: a_def)
qed

lemma rnd_bounds:
  assumes "0 \<le> x"
  shows "(1 - 1 / 2 ^ 53) * x \<le> rnd x" and "rnd x \<le> (1 + 1 / 2 ^ 53) * x"
proof -
  define u :: real where "u = 1 / 2 ^ 53"
  from rnd_error [of x] assms have "\<bar>rnd x - x\<bar> \<le> u * x"
    by (simp add: u_def)
  then have hi: "rnd x - x \<le> u * x" and lo: "- (u * x) \<le> rnd x - x"
    by (simp_all add: abs_le_iff)
  have "(1 - u) * x = x - u * x"
    by (simp add: left_diff_distrib)
  also have "\<dots> \<le> rnd x"
    using lo by simp
  finally have l: "(1 - u) * x \<le> rnd x" .
  have "rnd x \<le> x + u * x"
    using hi by simp
  also have "\<dots> = (1 + u) * x"
    by (simp add: distrib_right)
  finally have "rnd x \<le> (1 + u) * x" .
  with l show "(1 - 1 / 2 ^ 53) * x \<le> rnd x" and "rnd x \<le> (1 + 1 / 2 ^ 53) * x"
    by (simp_all only: u_def)
qed

lemma rnd_nonneg: "0 \<le> x \<Longrightarrow> 0 \<le> rnd x"
proof -
  assume x: "0 \<le> x"
  have "0 \<le> (1 - 1 / 2 ^ 53) * x"
    using x by (intro mult_nonneg_nonneg) simp_all
  with rnd_bounds(1) [OF x] show ?thesis by linarith
qed

lemma rnd_pos: "0 < x \<Longrightarrow> 0 < rnd x"
proof -
  assume x: "0 < x"
  have "0 < (1 - 1 / 2 ^ 53) * x"
    using x by (intro mult_pos_pos) simp_all
  with rnd_bounds(1) [of x] x show ?thesis by linarith
qed

lemma rnd_eval:
  assumes x: "0 < x" and lo: "2 powr of_int e \<le> x" and hi: "x < 2 powr (of_int e + 1)"
    and m: "\<bar>x * 2 powr (52 - of_int e) - of_int m\<bar> < 1 / 2"
  shows "rnd x = of_int m * 2 powr (of_int e - 52)"
proof -
  have "\<lfloor>log 2 x\<rfloor> = e"
  proof (rule floor_unique)
    show "of_int e \<le> log 2 x"
      using x lo by (simp add: le_log_iff)
    show "log 2 x < of_int e + 1"
      using x hi by (simp add: log_less_iff)
  qed
  moreover have "roundEven (x * 2 powr (52 - of_int e)) = m"
    by (rule roundEven_near [OF m])
  ultimately show ?thesis
    using x by (simp add: rnd_def Let_def)
qed

section \<open>The rounding errors of the embedding\<close>

lemma u_pos: "0 < unitRoundoff" and u_less: "unitRoundoff < 1"
  by (simp_all add: unitRoundoff_def)

lemma rnd_lower: "0 \<le> x \<Longrightarrow> (1 - unitRoundoff) * x \<le> rnd x"
  unfolding unitRoundoff_def by (rule rnd_bounds)

lemma rnd_upper: "0 \<le> x \<Longrightarrow> rnd x \<le> (1 + unitRoundoff) * x"
  unfolding unitRoundoff_def by (rule rnd_bounds)

lemma step_bounds:
  assumes a: "0 \<le> a" and w: "0 \<le> w"
  shows "(1 - unitRoundoff)\<^sup>2 * (a + w) \<le> rnd (a + rnd w)"
    and "rnd (a + rnd w) \<le> (1 + unitRoundoff)\<^sup>2 * (a + w)"
    and "0 \<le> rnd (a + rnd w)"
proof -
  define u where "u = unitRoundoff"
  have u: "0 < u" "u < 1"
    using u_pos u_less by (simp_all add: u_def)
  have rw: "(1 - u) * w \<le> rnd w" "rnd w \<le> (1 + u) * w"
    using rnd_lower [OF w] rnd_upper [OF w] by (simp_all add: u_def)
  have rw0: "0 \<le> rnd w"
    by (rule rnd_nonneg [OF w])
  then have s0: "0 \<le> a + rnd w"
    using a by simp
  have "(1 - u) * a \<le> a"
    using a u by (simp add: mult_left_le_one_le)
  with rw(1) have lo1: "(1 - u) * (a + w) \<le> a + rnd w"
    by (simp add: distrib_left)
  have "a \<le> (1 + u) * a"
    using a u by (simp add: distrib_right)
  with rw(2) have hi1: "a + rnd w \<le> (1 + u) * (a + w)"
    by (simp add: distrib_left)
  have "(1 - u)\<^sup>2 * (a + w) = (1 - u) * ((1 - u) * (a + w))"
    by (simp add: power2_eq_square)
  also have "\<dots> \<le> (1 - u) * (a + rnd w)"
    using lo1 u by (intro mult_left_mono) simp_all
  also have "\<dots> \<le> rnd (a + rnd w)"
    using rnd_lower [OF s0] by (simp add: u_def)
  finally show "(1 - unitRoundoff)\<^sup>2 * (a + w) \<le> rnd (a + rnd w)"
    by (simp add: u_def)
  have "rnd (a + rnd w) \<le> (1 + u) * (a + rnd w)"
    using rnd_upper [OF s0] by (simp add: u_def)
  also have "\<dots> \<le> (1 + u) * ((1 + u) * (a + w))"
    using hi1 u by (intro mult_left_mono) simp_all
  also have "\<dots> = (1 + u)\<^sup>2 * (a + w)"
    by (simp add: power2_eq_square)
  finally show "rnd (a + rnd w) \<le> (1 + unitRoundoff)\<^sup>2 * (a + w)"
    by (simp add: u_def)
  show "0 \<le> rnd (a + rnd w)"
    by (rule rnd_nonneg [OF s0])
qed

lemma fold_bounds:
  assumes "0 \<le> a"
  shows "(1 - unitRoundoff) ^ (2 * length vs) * (a + real (\<Sum>x\<leftarrow>vs. x * x))
           \<le> foldl (\<lambda>sum val. rnd (sum + rnd (real val * real val))) a vs
         \<and> foldl (\<lambda>sum val. rnd (sum + rnd (real val * real val))) a vs
           \<le> (1 + unitRoundoff) ^ (2 * length vs) * (a + real (\<Sum>x\<leftarrow>vs. x * x))"
  using assms
proof (induction vs arbitrary: a)
  case Nil
  then show ?case by simp
next
  case (Cons v vs)
  define u where "u = unitRoundoff"
  have u: "0 < u" "u < 1"
    using u_pos u_less by (simp_all add: u_def)
  define w where "w = real v * real v"
  define a' where "a' = rnd (a + rnd w)"
  define T where "T = real (\<Sum>x\<leftarrow>vs. x * x)"
  define n where "n = 2 * length vs"
  have w: "0 \<le> w"
    by (simp add: w_def)
  have T: "0 \<le> T"
    by (simp add: T_def)
  note sb = step_bounds [OF Cons.prems w, folded a'_def u_def]
  from Cons.IH [OF sb(3) [unfolded a'_def], folded a'_def T_def u_def n_def]
  have ih: "(1 - u) ^ n * (a' + T) \<le> foldl (\<lambda>sum val. rnd (sum + rnd (real val * real val))) a' vs"
    "foldl (\<lambda>sum val. rnd (sum + rnd (real val * real val))) a' vs \<le> (1 + u) ^ n * (a' + T)"
    by simp_all
  have "(1 - u)\<^sup>2 * T \<le> T"
  proof -
    have "(1 - u)\<^sup>2 \<le> 1"
      using u by (simp add: power_le_one)
    with T have "(1 - u)\<^sup>2 * T \<le> 1 * T"
      by (intro mult_right_mono)
    then show ?thesis by simp
  qed
  with sb(1) have lo: "(1 - u)\<^sup>2 * (a + w + T) \<le> a' + T"
    by (simp add: distrib_left)
  have "T \<le> (1 + u)\<^sup>2 * T"
  proof -
    have "1 \<le> (1 + u)\<^sup>2"
      using u by (simp add: one_le_power)
    with T have "1 * T \<le> (1 + u)\<^sup>2 * T"
      by (intro mult_right_mono)
    then show ?thesis by simp
  qed
  with sb(2) have hi: "a' + T \<le> (1 + u)\<^sup>2 * (a + w + T)"
    by (simp add: distrib_left)
  have e1: "(1 - u) ^ (2 * length (v # vs)) = (1 - u) ^ n * (1 - u)\<^sup>2"
    and e2: "(1 + u) ^ (2 * length (v # vs)) = (1 + u) ^ n * (1 + u)\<^sup>2"
    by (simp_all add: n_def power_add power2_eq_square)
  have sum: "a + real (\<Sum>x\<leftarrow>v # vs. x * x) = a + w + T"
    by (simp add: w_def T_def)
  have f: "foldl (\<lambda>sum val. rnd (sum + rnd (real val * real val))) a (v # vs)
      = foldl (\<lambda>sum val. rnd (sum + rnd (real val * real val))) a' vs"
    by (simp add: a'_def w_def)
  have "(1 - u) ^ n * ((1 - u)\<^sup>2 * (a + w + T)) \<le> (1 - u) ^ n * (a' + T)"
    using lo u by (intro mult_left_mono) simp_all
  with ih(1) have L: "(1 - u) ^ n * (1 - u)\<^sup>2 * (a + w + T)
      \<le> foldl (\<lambda>sum val. rnd (sum + rnd (real val * real val))) a' vs"
    by (simp add: mult.assoc)
  have "(1 + u) ^ n * (a' + T) \<le> (1 + u) ^ n * ((1 + u)\<^sup>2 * (a + w + T))"
    using hi u by (intro mult_left_mono) simp_all
  with ih(2) have H: "foldl (\<lambda>sum val. rnd (sum + rnd (real val * real val))) a' vs
      \<le> (1 + u) ^ n * (1 + u)\<^sup>2 * (a + w + T)"
    by (simp add: mult.assoc)
  from L H show ?case
    unfolding f sum u_def [symmetric] e1 e2 by simp
qed

lemma quotient_bounds:
  assumes M: "0 < M"
  shows "(1 - unitRoundoff)\<^sup>2 * (real (\<Sum>x\<leftarrow>vs. x * x) / M\<^sup>2)
           \<le> (\<Sum>x\<leftarrow>map (\<lambda>v. rnd (real v / M)) vs. x * x)
         \<and> (\<Sum>x\<leftarrow>map (\<lambda>v. rnd (real v / M)) vs. x * x)
           \<le> (1 + unitRoundoff)\<^sup>2 * (real (\<Sum>x\<leftarrow>vs. x * x) / M\<^sup>2)"
proof (induction vs)
  case Nil
  then show ?case by simp
next
  case (Cons v vs)
  define u where "u = unitRoundoff"
  have u: "0 < u" "u < 1"
    using u_pos u_less by (simp_all add: u_def)
  define c where "c = real v / M"
  define r where "r = rnd c"
  define T where "T = real (\<Sum>x\<leftarrow>vs. x * x) / M\<^sup>2"
  define S where "S = (\<Sum>x\<leftarrow>map (\<lambda>v. rnd (real v / M)) vs. x * x)"
  have c: "0 \<le> c"
    using M by (simp add: c_def)
  have r: "(1 - u) * c \<le> r" "r \<le> (1 + u) * c"
    using rnd_lower [OF c] rnd_upper [OF c] by (simp_all add: r_def u_def)
  have lc: "0 \<le> (1 - u) * c"
    using c u by simp
  with r(1) have r0: "0 \<le> r"
    by linarith
  have "((1 - u) * c) * ((1 - u) * c) \<le> r * r"
    using r(1) lc r0 by (intro mult_mono) simp_all
  then have lo: "(1 - u)\<^sup>2 * (c * c) \<le> r * r"
    by (simp add: power2_eq_square mult_ac)
  have "r * r \<le> ((1 + u) * c) * ((1 + u) * c)"
    using r(2) r0 c u by (intro mult_mono) simp_all
  then have hi: "r * r \<le> (1 + u)\<^sup>2 * (c * c)"
    by (simp add: power2_eq_square mult_ac)
  have cc: "real (\<Sum>x\<leftarrow>v # vs. x * x) / M\<^sup>2 = c * c + T"
    by (simp add: c_def T_def add_divide_distrib power2_eq_square)
  have ss: "(\<Sum>x\<leftarrow>map (\<lambda>v. rnd (real v / M)) (v # vs). x * x) = r * r + S"
    by (simp add: r_def c_def S_def)
  from Cons.IH have ih: "(1 - u)\<^sup>2 * T \<le> S" "S \<le> (1 + u)\<^sup>2 * T"
    by (simp_all add: u_def T_def S_def)
  have "(1 - u)\<^sup>2 * (c * c + T) \<le> r * r + S"
    using lo ih(1) by (simp add: distrib_left)
  moreover have "r * r + S \<le> (1 + u)\<^sup>2 * (c * c + T)"
    using hi ih(2) by (simp add: distrib_left)
  ultimately show ?case
    unfolding cc ss u_def [symmetric] by simp
qed

lemma roundoff_margin:
  "1 - 1 / 2 ^ 43 \<le> (1 - unitRoundoff) / (1 + unitRoundoff) ^ 257"
  "(1 + unitRoundoff) / (1 - unitRoundoff) ^ 257 \<le> 1 + 1 / 2 ^ 43"
proof -
  define u where "u = unitRoundoff"
  have u: "0 < u" "u < 1"
    using u_pos u_less by (simp_all add: u_def)
  have prod: "(1 + u) * (1 - u) \<le> 1"
  proof -
    have "(1 + u) * (1 - u) = 1 - u * u"
      by (simp add: algebra_simps)
    also have "\<dots> \<le> 1"
      using u by simp
    finally show ?thesis .
  qed
  have bern: "1 - 258 * u \<le> (1 - u) ^ 258"
    using Bernoulli_inequality [of "- u" 258] u by simp
  have small: "258 * u \<le> 1 / 2 ^ 44"
    by (simp add: u_def unitRoundoff_def)
  have inv1: "1 - u \<le> 1 / (1 + u)"
    using prod u by (simp add: pos_le_divide_eq mult.commute)
  have inv2: "1 + u \<le> 1 / (1 - u)"
    using prod u by (simp add: pos_le_divide_eq)
  have "(1 - u) ^ 257 \<le> (1 / (1 + u)) ^ 257"
    using inv1 u by (intro power_mono) simp_all
  then have p1: "(1 - u) ^ 257 \<le> 1 / (1 + u) ^ 257"
    by (simp add: power_one_over)
  have p258: "(1 - u) ^ 258 = (1 - u) * (1 - u) ^ 257"
    using power_Suc [of "1 - u" 257] by simp
  note p258
  also have "\<dots> \<le> (1 - u) * (1 / (1 + u) ^ 257)"
    using p1 u by (intro mult_left_mono) simp_all
  finally have q: "(1 - u) ^ 258 \<le> (1 - u) / (1 + u) ^ 257"
    by simp
  define d :: real where "d = 1 / 2 ^ 43"
  have "258 * u \<le> d"
    by (simp add: u_def unitRoundoff_def d_def)
  then have "1 - d \<le> 1 - 258 * u"
    by simp
  also note bern
  also note q
  finally have "1 - 1 / 2 ^ 43 \<le> (1 - u) / (1 + u) ^ 257"
    by (simp only: d_def)
  then show "1 - 1 / 2 ^ 43 \<le> (1 - unitRoundoff) / (1 + unitRoundoff) ^ 257"
    by (simp only: u_def)
  have pos: "0 < (1 - u) ^ 257"
    using u by simp
  have "(1 + u) / (1 - u) ^ 257 \<le> (1 / (1 - u)) / (1 - u) ^ 257"
    using inv2 pos by (intro divide_right_mono) simp_all
  also have "\<dots> = 1 / (1 - u) ^ 258"
    by (simp add: p258)
  also have "\<dots> \<le> 1 / (1 - 258 * u)"
  proof -
    have "0 < 1 - 258 * u"
      using small by simp
    with bern show ?thesis
      by (intro divide_left_mono mult_pos_pos) (use u in simp_all)
  qed
  also have "\<dots> \<le> 1 + 1 / 2 ^ 43"
    by (simp add: u_def unitRoundoff_def)
  finally show "(1 + unitRoundoff) / (1 - unitRoundoff) ^ 257 \<le> 1 + 1 / 2 ^ 43"
    by (simp only: u_def)
qed

lemma sqrt_scaled: "0 \<le> c \<Longrightarrow> sqrt (c\<^sup>2 * x) = c * sqrt x"
  by (simp add: real_sqrt_mult)

lemma fold_zero:
  "foldl (\<lambda>sum val. rnd (sum + rnd (real val * real val))) 0 (replicate n (0::nat)) = 0"
  by (induction n) (simp_all add: rnd_zero)

lemma rounded_norm:
  fixes v :: "nat list"
  defines "M \<equiv> rnd (sqrt (foldl (\<lambda>sum val. rnd (sum + rnd (real val * real val))) 0 v))"
  assumes len: "length v = 256" and nz: "(\<Sum>x\<leftarrow>v. x * x) \<noteq> 0"
  shows "0 < M" and "\<bar>sqrt (\<Sum>x\<leftarrow>map (\<lambda>x. rnd (real x / M)) v. x * x) - 1\<bar> \<le> 1 / 2 ^ 43"
proof -
  define u where "u = unitRoundoff"
  have u: "0 < u" "u < 1"
    using u_pos u_less by (simp_all add: u_def)
  define T where "T = real (\<Sum>x\<leftarrow>v. x * x)"
  define F where "F = foldl (\<lambda>sum val. rnd (sum + rnd (real val * real val))) 0 v"
  have M_def': "M = rnd (sqrt F)"
    by (simp only: M_def F_def)
  define es where "es = map (\<lambda>x. rnd (real x / M)) v"
  define s where "s = sqrt T"
  from nz have "0 < (\<Sum>x\<leftarrow>v. x * x)"
    by (rule neq0_conv [THEN iffD1])
  then have T: "0 < T"
    by (simp only: T_def of_nat_0_less_iff)
  then have s: "0 < s"
    by (simp add: s_def)
  from fold_bounds [of 0 v]
  have F: "(1 - u) ^ 512 * T \<le> F" "F \<le> (1 + u) ^ 512 * T"
    by (simp_all add: len u_def T_def F_def)
  have p512: "(1 - u) ^ 512 = ((1 - u) ^ 256)\<^sup>2" "(1 + u) ^ 512 = ((1 + u) ^ 256)\<^sup>2"
    by (simp_all add: power_mult [symmetric])
  have "0 < (1 - u) ^ 512 * T"
    using u T by simp
  with F(1) have F0: "0 < F"
    by linarith
  then have sF0: "0 < sqrt F"
    by simp
  have sF: "(1 - u) ^ 256 * s \<le> sqrt F" "sqrt F \<le> (1 + u) ^ 256 * s"
  proof -
    have lo: "sqrt (((1 - u) ^ 256)\<^sup>2 * T) = (1 - u) ^ 256 * s"
      unfolding s_def using u by (intro sqrt_scaled) simp
    have hi: "sqrt (((1 + u) ^ 256)\<^sup>2 * T) = (1 + u) ^ 256 * s"
      unfolding s_def using u by (intro sqrt_scaled) simp
    have "sqrt (((1 - u) ^ 256)\<^sup>2 * T) \<le> sqrt F"
      using F(1) by (simp only: p512 real_sqrt_le_iff)
    then show "(1 - u) ^ 256 * s \<le> sqrt F"
      by (simp only: lo)
    have "sqrt F \<le> sqrt (((1 + u) ^ 256)\<^sup>2 * T)"
      using F(2) by (simp only: p512 real_sqrt_le_iff)
    then show "sqrt F \<le> (1 + u) ^ 256 * s"
      by (simp only: hi)
  qed
  show M0: "0 < M"
    unfolding M_def' by (rule rnd_pos [OF sF0])
  have Mlo: "(1 - u) ^ 257 * s \<le> M"
  proof -
    have "(1 - u) ^ 257 * s = (1 - u) * ((1 - u) ^ 256 * s)"
      using power_Suc [of "1 - u" 256] by simp
    also have "\<dots> \<le> (1 - u) * sqrt F"
      using sF(1) u by (intro mult_left_mono) simp_all
    also have "\<dots> \<le> M"
      using rnd_lower [of "sqrt F"] sF0 by (simp add: M_def' u_def)
    finally show ?thesis .
  qed
  have Mhi: "M \<le> (1 + u) ^ 257 * s"
  proof -
    have "M \<le> (1 + u) * sqrt F"
      using rnd_upper [of "sqrt F"] sF0 by (simp add: M_def' u_def)
    also have "\<dots> \<le> (1 + u) * ((1 + u) ^ 256 * s)"
      using sF(2) u by (intro mult_left_mono) simp_all
    also have "\<dots> = (1 + u) ^ 257 * s"
      using power_Suc [of "1 + u" 256] by simp
    finally show ?thesis .
  qed
  define N where "N = sqrt (\<Sum>x\<leftarrow>es. x * x)"
  from quotient_bounds [OF M0, of v]
  have Q: "(1 - u)\<^sup>2 * (T / M\<^sup>2) \<le> (\<Sum>x\<leftarrow>es. x * x)"
    "(\<Sum>x\<leftarrow>es. x * x) \<le> (1 + u)\<^sup>2 * (T / M\<^sup>2)"
    by (simp_all add: u_def T_def es_def)
  have sq: "sqrt (T / M\<^sup>2) = s / M"
    using M0 by (simp add: real_sqrt_divide s_def)
  have Nlo: "(1 - u) * (s / M) \<le> N"
  proof -
    have e: "sqrt ((1 - u)\<^sup>2 * (T / M\<^sup>2)) = (1 - u) * sqrt (T / M\<^sup>2)"
      using u by (intro sqrt_scaled) simp
    have "sqrt ((1 - u)\<^sup>2 * (T / M\<^sup>2)) \<le> N"
      unfolding N_def using Q(1) by (simp only: real_sqrt_le_iff)
    then show ?thesis
      by (simp only: e sq)
  qed
  have Nhi: "N \<le> (1 + u) * (s / M)"
  proof -
    have e: "sqrt ((1 + u)\<^sup>2 * (T / M\<^sup>2)) = (1 + u) * sqrt (T / M\<^sup>2)"
      using u by (intro sqrt_scaled) simp
    have "N \<le> sqrt ((1 + u)\<^sup>2 * (T / M\<^sup>2))"
      unfolding N_def using Q(2) by (simp only: real_sqrt_le_iff)
    then show ?thesis
      by (simp only: e sq)
  qed
  have q_lo: "1 / (1 + u) ^ 257 \<le> s / M"
  proof -
    have "0 < (1 + u) ^ 257"
      using u by simp
    then have "1 / (1 + u) ^ 257 = s / ((1 + u) ^ 257 * s)"
      using s by simp
    also have "\<dots> \<le> s / M"
      using Mhi M0 s by (intro divide_left_mono) simp_all
    finally show ?thesis .
  qed
  have q_hi: "s / M \<le> 1 / (1 - u) ^ 257"
  proof -
    have p: "0 < (1 - u) ^ 257"
      using u by simp
    then have ps: "0 < (1 - u) ^ 257 * s"
      using s by simp
    have "s / M \<le> s / ((1 - u) ^ 257 * s)"
      using Mlo M0 s ps by (intro divide_left_mono) simp_all
    also have "\<dots> = 1 / (1 - u) ^ 257"
      using s by simp
    finally show ?thesis .
  qed
  have "(1 - u) / (1 + u) ^ 257 = (1 - u) * (1 / (1 + u) ^ 257)"
    by simp
  also have "\<dots> \<le> (1 - u) * (s / M)"
    using q_lo u by (intro mult_left_mono) simp_all
  also note Nlo
  finally have lower: "(1 - u) / (1 + u) ^ 257 \<le> N" .
  note Nhi
  also have "(1 + u) * (s / M) \<le> (1 + u) * (1 / (1 - u) ^ 257)"
    using q_hi u by (intro mult_left_mono) simp_all
  also have "\<dots> = (1 + u) / (1 - u) ^ 257"
    by simp
  finally have upper: "N \<le> (1 + u) / (1 - u) ^ 257" .
  define d :: real where "d = 1 / 2 ^ 43"
  from roundoff_margin(1) lower have "1 - d \<le> N"
    unfolding u_def d_def by (rule order_trans)
  moreover from upper roundoff_margin(2) have "N \<le> 1 + d"
    unfolding u_def d_def by (rule order_trans)
  ultimately have "\<bar>N - 1\<bar> \<le> d"
    by (simp add: abs_le_iff)
  then show "\<bar>sqrt (\<Sum>x\<leftarrow>map (\<lambda>x. rnd (real x / M)) v. x * x) - 1\<bar> \<le> 1 / 2 ^ 43"
    by (simp only: N_def d_def es_def)
qed

section \<open>The feature vector as sums over the hashed bigrams\<close>

lemma dot_update:
  "j < length u \<Longrightarrow> length u = length v \<Longrightarrow>
     sum_list (map2 (*) (u[j := u ! j + c]) v) = sum_list (map2 (*) u v) + c * v ! j"
  for u v :: "nat list"
proof (induction u arbitrary: j v)
  case Nil
  then show ?case by simp
next
  case (Cons a u)
  then obtain b v' where v: "v = b # v'"
    by (cases v) auto
  show ?case
  proof (cases j)
    case 0
    then show ?thesis by (simp add: v algebra_simps)
  next
    case (Suc k)
    with Cons.prems v Cons.IH [of k v'] show ?thesis by simp
  qed
qed

lemma dot_foldl:
  "length u = 256 \<Longrightarrow> length v = 256 \<Longrightarrow>
     sum_list (map2 (*)
        (foldl (\<lambda>vector (gram, count).
              vector[hashString gram mod 256 := vector ! (hashString gram mod 256) + count]) u fs) v)
     = sum_list (map2 (*) u v) + (\<Sum>(g, c)\<leftarrow>fs. c * v ! (hashString g mod 256))"
  for u v :: "nat list"
proof (induction fs arbitrary: u)
  case Nil
  then show ?case by simp
next
  case (Cons f fs)
  obtain g c where f: "f = (g, c)"
    by (cases f)
  have "hashString g mod 256 < length u"
    using Cons.prems by simp
  then have upd: "sum_list (map2 (*) (u[hashString g mod 256 := u ! (hashString g mod 256) + c]) v)
      = sum_list (map2 (*) u v) + c * v ! (hashString g mod 256)"
    using Cons.prems by (intro dot_update) simp_all
  from Cons.prems Cons.IH [of "u[hashString g mod 256 := u ! (hashString g mod 256) + c]"]
  show ?case
    by (simp add: f upd)
qed

lemma dot_zero: "sum_list (map2 (*) (replicate n (0::nat)) v) = 0"
  by (induction n arbitrary: v) (simp, case_tac v, simp_all)

lemma featureVector_dot:
  "length v = 256 \<Longrightarrow>
     sum_list (map2 (*) (featureVector fs) v) = (\<Sum>(g, c)\<leftarrow>fs. c * v ! (hashString g mod 256))"
  unfolding featureVector_def by (simp add: dot_foldl dot_zero)

lemma nth_foldl:
  "k < length u \<Longrightarrow> length u = 256 \<Longrightarrow>
     foldl (\<lambda>vector (gram, count).
              vector[hashString gram mod 256 := vector ! (hashString gram mod 256) + count]) u fs ! k
     = u ! k + (\<Sum>(g, c)\<leftarrow>fs. if hashString g mod 256 = k then c else 0)"
  for u :: "nat list"
proof (induction fs arbitrary: u)
  case Nil
  then show ?case by simp
next
  case (Cons f fs)
  obtain g c where f: "f = (g, c)"
    by (cases f)
  have h: "hashString g mod 256 < length u"
    using Cons.prems by simp
  have "foldl (\<lambda>vector (gram, count).
              vector[hashString gram mod 256 := vector ! (hashString gram mod 256) + count])
           (u[hashString g mod 256 := u ! (hashString g mod 256) + c]) fs ! k
        = u[hashString g mod 256 := u ! (hashString g mod 256) + c] ! k
          + (\<Sum>(g, c)\<leftarrow>fs. if hashString g mod 256 = k then c else 0)"
    using Cons.prems by (intro Cons.IH) simp_all
  also have "u[hashString g mod 256 := u ! (hashString g mod 256) + c] ! k
        = u ! k + (if hashString g mod 256 = k then c else 0)"
    using h Cons.prems by (auto simp: nth_list_update)
  finally show ?case
    by (simp add: f)
qed

lemma featureVector_nth:
  "k < 256 \<Longrightarrow>
     featureVector fs ! k = (\<Sum>(g, c)\<leftarrow>fs. if hashString g mod 256 = k then c else 0)"
  unfolding featureVector_def by (simp add: nth_foldl)

lemma featureVector_dot2:
  "sum_list (map2 (*) (featureVector fs) (featureVector gs))
   = (\<Sum>(g, c)\<leftarrow>fs. c * (\<Sum>(g', c')\<leftarrow>gs. if hashString g' mod 256 = hashString g mod 256 then c' else 0))"
proof -
  have "\<And>g. featureVector gs ! (hashString g mod 256)
           = (\<Sum>(g', c')\<leftarrow>gs. if hashString g' mod 256 = hashString g mod 256 then c' else 0)"
    by (rule featureVector_nth) simp
  then show ?thesis
    by (simp add: featureVector_dot length_featureVector)
qed

lemma squares_as_dot: "sum_list (map (\<lambda>x. x * x) v) = sum_list (map2 (*) v v)" for v :: "nat list"
  by (induction v) simp_all

lemma featureVector_dot3:
  assumes "map (\<lambda>(g, c). (hashString g mod 256, c)) fs = hs"
    and "map (\<lambda>(g, c). (hashString g mod 256, c)) gs = ks"
  shows "sum_list (map2 (*) (featureVector fs) (featureVector gs))
   = (\<Sum>(k, c)\<leftarrow>hs. c * (\<Sum>(k', c')\<leftarrow>ks. if k' = k then c' else 0))"
proof -
  have "(\<Sum>(g, c)\<leftarrow>fs. c * (\<Sum>(g', c')\<leftarrow>gs. if hashString g' mod 256 = hashString g mod 256 then c' else 0))
      = (\<Sum>(k, c)\<leftarrow>map (\<lambda>(g, c). (hashString g mod 256, c)) fs.
           c * (\<Sum>(k', c')\<leftarrow>map (\<lambda>(g, c). (hashString g mod 256, c)) gs. if k' = k then c' else 0))"
    by (simp add: comp_def case_prod_unfold cong: if_cong)
  then show ?thesis
    by (simp only: featureVector_dot2 assms)
qed

lemma hashed_happy:
  "map (\<lambda>(g, c). (hashString g mod 256, c)) (bigramFeatures asciiLower (js ''happy'')) = [(249, 1), (47, 1), (0, 1), (9, 1)]"
proof -
  have "bigramFeatures asciiLower (js ''happy'') = [([104, 97], 1), ([97, 112], 1), ([112, 112], 1), ([112, 121], 1)]"
    by code_simp
  then show ?thesis
    by (simp add: hashString_def hashStep_def)
qed

lemma hashed_red:
  "map (\<lambda>(g, c). (hashString g mod 256, c)) (bigramFeatures asciiLower (js ''red heart sticker happy'')) = [(51, 1), (159, 1), (60, 1), (72, 2), (253, 1), (156, 1), (49, 1), (66, 1), (44, 1), (83, 1), (97, 1), (117, 1), (26, 1), (104, 1), (90, 1), (173, 1), (238, 1), (249, 1), (47, 1), (0, 1), (9, 1)]"
proof -
  have "bigramFeatures asciiLower (js ''red heart sticker happy'') = [([114, 101], 1), ([101, 100], 1), ([100, 32], 1), ([32, 104], 2), ([104, 101], 1), ([101, 97], 1), ([97, 114], 1), ([114, 116], 1), ([116, 32], 1), ([32, 115], 1), ([115, 116], 1), ([116, 105], 1), ([105, 99], 1), ([99, 107], 1), ([107, 101], 1), ([101, 114], 1), ([114, 32], 1), ([104, 97], 1), ([97, 112], 1), ([112, 112], 1), ([112, 121], 1)]"
    by code_simp
  then show ?thesis
    by (simp add: hashString_def hashStep_def)
qed

lemma norm_happy:
  "sum_list (map (\<lambda>x. x * x) (featureVector (bigramFeatures asciiLower (js ''happy'')))) = 4"
  unfolding squares_as_dot featureVector_dot3 [OF hashed_happy hashed_happy] by simp

lemma norm_red:
  "sum_list (map (\<lambda>x. x * x) (featureVector (bigramFeatures asciiLower (js ''red heart sticker happy'')))) = 24"
  unfolding squares_as_dot featureVector_dot3 [OF hashed_red hashed_red] by simp

lemma dot_happy_red:
  "sum_list (map2 (*) (featureVector (bigramFeatures asciiLower (js ''happy'')))
      (featureVector (bigramFeatures asciiLower (js ''red heart sticker happy'')))) = 4"
  unfolding featureVector_dot3 [OF hashed_happy hashed_red] by simp

section \<open>The cache on concrete descriptors\<close>

lemma cos_happy_red:
  "cosineSimilarity (computeTextEmbedding asciiLower (js ''happy''))
      (computeTextEmbedding asciiLower (js ''red heart sticker happy'')) < 7 / 10"
proof -
  have "cosineSimilarity (computeTextEmbedding asciiLower (js ''happy''))
      (computeTextEmbedding asciiLower (js ''red heart sticker happy''))
      = real 4 / (sqrt (real 4) * sqrt (real 24))"
    by (rule cos_embeddings [OF norm_happy norm_red dot_happy_red]) simp_all
  also have "\<dots> = 2 / sqrt 24"
    by simp
  also have "\<dots> < 7 / 10"
  proof -
    have "4 < sqrt 24"
      by (rule real_less_rsqrt) simp
    then show ?thesis
      by (simp add: field_simps)
  qed
  finally show ?thesis .
qed

lemma js_append: "js a @ js b = js (a @ b)"
  by (simp add: js_def)

text \<open>
  Claim C6, evaluated on the code. \<open>saveSticker\<close> embeds the text
  "red heart sticker happy", the lookup embeds "happy". The two feature vectors have
  squared norms 24 and 4 and inner product 4, so the similarity is \<open>2 / sqrt 24\<close>,
  about 0.41 and below the threshold 0.7: the lookup returns no match and the usage
  count stays 1.
\<close>

theorem saveSticker_then_findSimilar_misses:
  "case saveSticker asciiLower (js ''sticker-1'', js ''2026-01-01T00:00:00.000Z'')
          (js ''red heart sticker'') hikari_emotion (js ''happy'') (js ''payload'') [] of
     Inl e \<Rightarrow> False
   | Inr (saved, db) \<Rightarrow>
       db = [saved] \<and> usageCount saved = 1 \<and>
       cosineSimilarity (computeTextEmbedding asciiLower (js ''happy'')) (embedding saved) < 7 / 10 \<and>
       findSimilarSticker asciiLower hikari_emotion (js ''happy'') (7 / 10) db = (None, db)"
proof -
  define saved where "saved =
     \<lparr> stickerId = js ''sticker-1'', prompt = js ''red heart sticker'', stype = hikari_emotion,
       detail = js ''happy'', imageData = js ''payload'',
       embedding = computeTextEmbedding asciiLower (js ''red heart sticker happy''),
       createdAt = js ''2026-01-01T00:00:00.000Z'', usageCount = 1 \<rparr>"
  have save: "saveSticker asciiLower (js ''sticker-1'', js ''2026-01-01T00:00:00.000Z'')
          (js ''red heart sticker'') hikari_emotion (js ''happy'') (js ''payload'') []
        = Inr (saved, [saved])"
    by (simp add: saveSticker_def storeAdd_def Let_def js_append saved_def)
  have cos: "cosineSimilarity (computeTextEmbedding asciiLower (js ''happy'')) (embedding saved) < 7 / 10"
    using cos_happy_red by (simp add: saved_def)
  have "bestOf (computeTextEmbedding asciiLower (js ''happy'')) (7 / 10) [saved] = (None, 0)"
    using cos by (intro bestOf_none) auto
  then have find: "findSimilarSticker asciiLower hikari_emotion (js ''happy'') (7 / 10) [saved]
        = (None, [saved])"
    by (simp add: findSimilarSticker_def Let_def saved_def)
  show ?thesis
    unfolding save using cos find by (simp add: saved_def)
qed

lemma norm_ab:
  "sum_list (map (\<lambda>x. x * x) (featureVector (bigramFeatures asciiLower (js ''ab'')))) = 1"
proof -
  have f: "bigramFeatures asciiLower (js ''ab'') = [([97, 98], 1)]"
    by code_simp
  have "map (\<lambda>(g, c). (hashString g mod 256, c)) (bigramFeatures asciiLower (js ''ab'')) = [(33, 1)]"
    unfolding f by (simp add: hashString_def hashStep_def)
  from featureVector_dot3 [OF this this] show ?thesis
    by (simp add: squares_as_dot)
qed

text \<open>
  The one-character descriptor "h" misses a cache that holds a sticker of its type.
\<close>

theorem findSimilarSticker_short_witness:
  "length (js ''h'') < 2 \<and>
   findSimilarSticker asciiLower hikari_emotion (js ''h'') (7 / 10)
     [\<lparr> stickerId = js ''sticker-1'', prompt = js ''x'', stype = hikari_emotion,
        detail = js ''h'', imageData = js ''payload'',
        embedding = computeTextEmbedding asciiLower (js ''x h''),
        createdAt = js ''2026'', usageCount = 1 \<rparr>]
   = (None,
     [\<lparr> stickerId = js ''sticker-1'', prompt = js ''x'', stype = hikari_emotion,
        detail = js ''h'', imageData = js ''payload'',
        embedding = computeTextEmbedding asciiLower (js ''x h''),
        createdAt = js ''2026'', usageCount = 1 \<rparr>])"
proof -
  have l: "length (js ''h'') < 2"
    by (simp add: js_def)
  from l findSimilarSticker_short [OF l] show ?thesis
    by blast
qed

lemma cos_ab_ab:
  "cosineSimilarity (computeTextEmbedding asciiLower (js ''ab''))
      (computeTextEmbedding asciiLower (js ''ab'')) = 1"
proof -
  have "sum_list (map2 (*) (featureVector (bigramFeatures asciiLower (js ''ab'')))
      (featureVector (bigramFeatures asciiLower (js ''ab'')))) = 1"
    using norm_ab by (simp only: squares_as_dot)
  from cos_embeddings [OF norm_ab norm_ab this] show ?thesis
    by simp
qed

text \<open>
  A sticker whose stored embedding is that of "ab" is returned for the descriptor "ab"
  under its own type, and not under another type.
\<close>

theorem findSimilarSticker_sound_witness:
  "fst (findSimilarSticker asciiLower hikari_emotion (js ''ab'') (7 / 10)
     [\<lparr> stickerId = js ''s1'', prompt = [], stype = hikari_emotion,
        detail = js ''ab'', imageData = js ''payload'',
        embedding = computeTextEmbedding asciiLower (js ''ab''),
        createdAt = js ''2026'', usageCount = 1 \<rparr>])
   = Some \<lparr> stickerId = js ''s1'', prompt = [], stype = hikari_emotion,
        detail = js ''ab'', imageData = js ''payload'',
        embedding = computeTextEmbedding asciiLower (js ''ab''),
        createdAt = js ''2026'', usageCount = 1 \<rparr> \<and>
   \<not> cosineSimilarity (computeTextEmbedding asciiLower (js ''ab''))
       (computeTextEmbedding asciiLower (js ''ab'')) < 7 / 10 \<and>
   fst (findSimilarSticker asciiLower food_item (js ''ab'') (7 / 10)
     [\<lparr> stickerId = js ''s1'', prompt = [], stype = hikari_emotion,
        detail = js ''ab'', imageData = js ''payload'',
        embedding = computeTextEmbedding asciiLower (js ''ab''),
        createdAt = js ''2026'', usageCount = 1 \<rparr>]) = None"
proof -
  define st where "st =
     \<lparr> stickerId = js ''s1'', prompt = [], stype = hikari_emotion,
        detail = js ''ab'', imageData = js ''payload'',
        embedding = computeTextEmbedding asciiLower (js ''ab''),
        createdAt = js ''2026'', usageCount = 1 \<rparr>"
  have "bestOf (computeTextEmbedding asciiLower (js ''ab'')) (7 / 10) [st] = (Some st, 1)"
    by (simp add: bestOf_def Let_def st_def cos_ab_ab)
  then have m: "fst (findSimilarSticker asciiLower hikari_emotion (js ''ab'') (7 / 10) [st]) = Some st"
    by (simp add: findSimilarSticker_def Let_def st_def)
  have n: "\<forall>s \<in> set [st]. stype s = food_item \<longrightarrow>
        cosineSimilarity (computeTextEmbedding asciiLower (js ''ab'')) (embedding s) < 7 / 10"
    by (simp add: st_def)
  from findSimilarSticker_sound [of asciiLower hikari_emotion "js ''ab''" "7 / 10" "[st]" st] m
  have "\<not> cosineSimilarity (computeTextEmbedding asciiLower (js ''ab'')) (embedding st) < 7 / 10"
    by blast
  moreover from findSimilarSticker_sound [of asciiLower food_item "js ''ab''" "7 / 10" "[st]" st] n
  have "fst (findSimilarSticker asciiLower food_item (js ''ab'') (7 / 10) [st]) = None"
    by blast
  ultimately show ?thesis
    using m unfolding st_def by simp
qed

section \<open>The embedding on doubles\<close>

text \<open>
  A count of a text of fewer than \<open>2 ^ 53\<close> code units is far from the bounds on the
  exponent of a double, and so is every intermediate result of the embedding: each
  operation is \<open>rnd\<close> of the exact result.
\<close>

lemma double_rnd:
  assumes "x = 0 \<or> (2 powr (- 1022) \<le> x \<and> x \<le> 2 powr 1023)"
  shows "double x = Num (rnd x)"
proof (cases "x = 0")
  case True
  then show ?thesis
    by (simp add: double_def rnd_zero)
next
  case False
  with assms have lo: "2 powr (- 1022) \<le> x" and hi: "x \<le> 2 powr 1023"
    by simp_all
  have "(0::real) < 2 powr (- 1022)"
    by simp
  with lo have x0: "0 < x"
    by linarith
  define e where "e = \<lfloor>log 2 x\<rfloor>"
  have "(real_of_int (- 1022) \<le> log 2 x) = (2 powr real_of_int (- 1022) \<le> x)"
    using x0 by (intro le_log_iff) simp_all
  with lo have "real_of_int (- 1022) \<le> log 2 x"
    by simp
  then have "- 1022 \<le> e"
    unfolding e_def by (simp only: le_floor_iff)
  then have m: "max e (- 1022) = e"
    by simp
  define r :: real where "r = of_int (roundEven (x * 2 powr (52 - of_int e))) * 2 powr (of_int e - 52)"
  have r: "rnd x = r"
    using x0 by (simp add: rnd_def Let_def e_def r_def)
  have "rnd x \<le> (1 + unitRoundoff) * x"
    using x0 by (intro rnd_upper) simp
  also have "\<dots> \<le> (1 + unitRoundoff) * 2 powr 1023"
    using hi u_pos by (intro mult_left_mono) simp_all
  also have "\<dots> < 2 * 2 powr 1023"
    using u_less by (intro mult_strict_right_mono) simp_all
  also have "\<dots> = 2 powr 1024"
    using powr_add [of "2::real" 1 1023] by simp
  finally have "\<not> 2 powr 1024 \<le> r"
    by (simp add: r)
  then have "double x = Num (sgn x * r)"
    using x0 m unfolding double_def Let_def r_def e_def by simp
  then show ?thesis
    using x0 r by simp
qed

lemma pow_margin:
  assumes "k \<le> 512"
  shows "1 / 2 \<le> (1 - unitRoundoff) ^ k" and "(1 + unitRoundoff) ^ k \<le> 2"
proof -
  define u where "u = unitRoundoff"
  have u: "0 < u" "u < 1"
    using u_pos u_less by (simp_all add: u_def)
  have small: "512 * u \<le> 1 / 2"
    by (simp add: u_def unitRoundoff_def)
  have bern: "1 - 512 * u \<le> (1 - u) ^ 512"
    using Bernoulli_inequality [of "- u" 512] u by simp
  with small have half: "1 / 2 \<le> (1 - u) ^ 512"
    by linarith
  have "(1 - u) ^ 512 \<le> (1 - u) ^ k"
    using assms u by (intro power_decreasing) simp_all
  with half show "1 / 2 \<le> (1 - unitRoundoff) ^ k"
    by (simp add: u_def)
  have prod: "(1 + u) * (1 - u) \<le> 1"
  proof -
    have "(1 + u) * (1 - u) = 1 - u * u"
      by (simp add: algebra_simps)
    also have "\<dots> \<le> 1"
      using u by simp
    finally show ?thesis .
  qed
  have "1 + u \<le> 1 / (1 - u)"
    using prod u by (simp add: pos_le_divide_eq)
  then have "(1 + u) ^ 512 \<le> (1 / (1 - u)) ^ 512"
    using u by (intro power_mono) simp_all
  also have "\<dots> = 1 / (1 - u) ^ 512"
    by (simp add: power_one_over)
  also have "\<dots> \<le> 1 / (1 / 2)"
  proof -
    have "0 < (1 - u) ^ 512"
      using u by simp
    with half show ?thesis
      by (intro divide_left_mono mult_pos_pos) simp_all
  qed
  finally have two: "(1 + u) ^ 512 \<le> 2"
    by simp
  have "(1 + u) ^ k \<le> (1 + u) ^ 512"
    using assms u by (intro power_increasing) simp_all
  with two show "(1 + unitRoundoff) ^ k \<le> 2"
    by (simp add: u_def)
qed

lemma bump_counts:
  assumes "\<forall>(g, c) \<in> set fs. c \<le> k"
  shows "\<forall>(g, c) \<in> set (bump fs gram). c \<le> Suc k"
proof (cases "map_of fs gram")
  case None
  with assms show ?thesis
    by (auto simp: bump_def)
next
  case (Some c)
  then have "(gram, c) \<in> set fs"
    by (rule map_of_SomeD)
  with assms have "c \<le> k"
    by auto
  with assms Some show ?thesis
    by (auto simp: bump_def split: if_splits)
qed

lemma bump_length: "length (bump fs gram) \<le> Suc (length fs)"
  by (simp add: bump_def split: option.split)

lemma bumps_bound:
  assumes "\<forall>(g, c) \<in> set fs. c \<le> k"
  shows "(\<forall>(g, c) \<in> set (foldl (\<lambda>features i. bump features (h i)) fs is). c \<le> k + length is)
    \<and> length (foldl (\<lambda>features i. bump features (h i)) fs is) \<le> length fs + length is"
  using assms
proof (induction "is" arbitrary: fs k)
  case Nil
  then show ?case
    by simp
next
  case (Cons i "is")
  from Cons.IH [OF bump_counts [OF Cons.prems, of "h i"]] bump_length [of fs "h i"]
  show ?case
    by simp
qed

lemma bigramFeatures_bound:
  "(\<forall>(g, c) \<in> set (bigramFeatures L t). c \<le> length t) \<and> length (bigramFeatures L t) \<le> length t"
proof -
  have "\<forall>(g, c) \<in> set ([] :: (jsstring \<times> nat) list). c \<le> 0"
    by simp
  from bumps_bound [OF this, of "\<lambda>i. take 2 (drop i (L t))" "[0..<length t - 1]"]
  show ?thesis
    unfolding bigramFeatures_def by auto
qed

lemma counts_sum:
  fixes fs :: "('a \<times> nat) list"
  assumes "\<forall>(g, c) \<in> set fs. c \<le> m"
  shows "(\<Sum>(g, c)\<leftarrow>fs. if P g then c else 0) \<le> length fs * m"
  using assms by (induction fs) auto

lemma featureVector_bound:
  assumes "x \<in> set (featureVector (bigramFeatures L t))"
  shows "x \<le> length t * length t"
proof -
  from assms obtain k where k: "k < 256" and x: "x = featureVector (bigramFeatures L t) ! k"
    by (auto simp: in_set_conv_nth length_featureVector)
  have "x = (\<Sum>(g, c)\<leftarrow>bigramFeatures L t. if hashString g mod 256 = k then c else 0)"
    unfolding x by (rule featureVector_nth [OF k])
  also have "\<dots> \<le> length (bigramFeatures L t) * length t"
    using bigramFeatures_bound [of L t] by (intro counts_sum) simp
  also have "\<dots> \<le> length t * length t"
    using bigramFeatures_bound [of L t] by (intro mult_right_mono) simp_all
  finally show ?thesis .
qed

lemma double_safe:
  assumes "x = 0 \<or> (1 / 2 ^ 200 \<le> x \<and> x \<le> 2 ^ 300)"
  shows "double x = Num (rnd x)"
proof (rule double_rnd)
  have lo: "(2::real) powr (- 1022) \<le> 1 / 2 ^ 200"
  proof -
    have "(2::real) powr (- 1022) \<le> 2 powr (- 200)"
      by (intro powr_mono) simp_all
    also have "\<dots> = 1 / 2 powr 200"
      by (simp only: powr_minus_divide)
    also have "(2::real) powr 200 = 2 ^ 200"
      using powr_realpow [of "2::real" 200] by simp
    finally show ?thesis .
  qed
  have hi: "(2::real) ^ 300 \<le> 2 powr 1023"
  proof -
    have "(2::real) ^ 300 = 2 powr 300"
      using powr_realpow [of "2::real" 300] by simp
    also have "\<dots> \<le> 2 powr 1023"
      by (intro powr_mono) simp_all
    finally show ?thesis .
  qed
  from assms lo hi show "x = 0 \<or> (2 powr (- 1022) \<le> x \<and> x \<le> 2 powr 1023)"
    by linarith
qed

lemma fold_range:
  assumes "length p \<le> 256"
  shows "real (\<Sum>x\<leftarrow>p. x * x) / 2 \<le> foldl (\<lambda>sum val. rnd (sum + rnd (real val * real val))) 0 p"
    and "foldl (\<lambda>sum val. rnd (sum + rnd (real val * real val))) 0 p \<le> 2 * real (\<Sum>x\<leftarrow>p. x * x)"
proof -
  define T where "T = real (\<Sum>x\<leftarrow>p. x * x)"
  define S where "S = foldl (\<lambda>sum val. rnd (sum + rnd (real val * real val))) 0 p"
  have T: "0 \<le> T"
    by (simp add: T_def)
  have k: "2 * length p \<le> 512"
    using assms by simp
  from fold_bounds [of 0 p]
  have b: "(1 - unitRoundoff) ^ (2 * length p) * T \<le> S" "S \<le> (1 + unitRoundoff) ^ (2 * length p) * T"
    by (simp_all add: T_def S_def)
  have "1 / 2 * T \<le> (1 - unitRoundoff) ^ (2 * length p) * T"
    using pow_margin(1) [OF k] T by (intro mult_right_mono)
  with b(1) have "T / 2 \<le> S"
    by simp
  then show "real (\<Sum>x\<leftarrow>p. x * x) / 2 \<le> foldl (\<lambda>sum val. rnd (sum + rnd (real val * real val))) 0 p"
    by (simp only: T_def S_def)
  have "(1 + unitRoundoff) ^ (2 * length p) * T \<le> 2 * T"
    using pow_margin(2) [OF k] T by (intro mult_right_mono)
  with b(2) have "S \<le> 2 * T"
    by simp
  then show "foldl (\<lambda>sum val. rnd (sum + rnd (real val * real val))) 0 p \<le> 2 * real (\<Sum>x\<leftarrow>p. x * x)"
    by (simp only: T_def S_def)
qed

lemma rnd_range:
  assumes "0 \<le> w"
  shows "w / 2 \<le> rnd w" and "rnd w \<le> 2 * w"
proof -
  have "1 / 2 * w \<le> (1 - unitRoundoff) ^ 1 * w"
    using pow_margin(1) [of 1] assms by (intro mult_right_mono) simp_all
  with rnd_lower [OF assms] show "w / 2 \<le> rnd w"
    by simp
  have "(1 + unitRoundoff) ^ 1 * w \<le> 2 * w"
    using pow_margin(2) [of 1] assms by (intro mult_right_mono) simp_all
  with rnd_upper [OF assms] show "rnd w \<le> 2 * w"
    by simp
qed

lemma fold_double:
  assumes "length p \<le> 256" and "(\<Sum>x\<leftarrow>p. x * x) \<le> 2 ^ 220"
  shows "foldl (\<lambda>sum val. jsadd sum (jsmul val val)) (Num 0) (map (\<lambda>count. Num (real count)) p)
     = Num (foldl (\<lambda>sum val. rnd (sum + rnd (real val * real val))) 0 p)"
  using assms
proof (induction p rule: rev_induct)
  case Nil
  then show ?case
    by simp
next
  case (snoc x p)
  define S where "S = foldl (\<lambda>sum val. rnd (sum + rnd (real val * real val))) 0 p"
  define w where "w = real x * real x"
  define T where "T = (\<Sum>x\<leftarrow>p. x * x)"
  have len: "length p \<le> 256"
    using snoc.prems(1) by simp
  have tot: "T + x * x \<le> 2 ^ 220"
    using snoc.prems(2) by (simp add: T_def)
  then have "T \<le> 2 ^ 220"
    by simp
  with snoc.IH len
  have ih: "foldl (\<lambda>sum val. jsadd sum (jsmul val val)) (Num 0) (map (\<lambda>count. Num (real count)) p) = Num S"
    by (simp add: S_def T_def)
  have w: "w = real (x * x)"
    by (simp add: w_def)
  have w0: "0 \<le> w"
    by (simp add: w_def)
  have wr: "w = 0 \<or> (1 / 2 ^ 200 \<le> w \<and> w \<le> 2 ^ 300)"
  proof (cases "x = 0")
    case True
    then show ?thesis
      by (simp add: w_def)
  next
    case False
    then have "1 \<le> x * x"
      by simp
    then have "1 \<le> w"
      unfolding w by (simp only: of_nat_1 [symmetric, where 'a = real] of_nat_le_iff)
    moreover have "x * x \<le> 2 ^ 220"
      using tot by simp
    then have "w \<le> 2 ^ 220"
      unfolding w by (simp only: of_nat_le_iff of_nat_numeral [symmetric, where 'a = real] of_nat_power [symmetric, where 'a = real])
    ultimately show ?thesis
      by simp
  qed
  have dw: "double w = Num (rnd w)"
    by (rule double_safe [OF wr])
  have S: "real T / 2 \<le> S" "S \<le> 2 * real T"
    using fold_range [OF len] by (simp_all add: S_def T_def)
  note r = rnd_range [OF w0]
  have sr: "S + rnd w = 0 \<or> (1 / 2 ^ 200 \<le> S + rnd w \<and> S + rnd w \<le> 2 ^ 300)"
  proof (cases "T + x * x = 0")
    case True
    then have "real T = 0" "w = 0"
      by (simp_all add: w_def)
    with S r show ?thesis
      by simp
  next
    case False
    then have "0 < T + x * x"
      by (rule neq0_conv [THEN iffD1])
    then have "1 \<le> T + x * x"
      by linarith
    then have "1 \<le> real (T + x * x)"
      by (simp only: of_nat_1 [symmetric, where 'a = real] of_nat_le_iff)
    then have one: "1 \<le> real T + w"
      by (simp add: w)
    have "real (T + x * x) \<le> 2 ^ 220"
      using tot by (simp only: of_nat_le_iff of_nat_numeral [symmetric, where 'a = real] of_nat_power [symmetric, where 'a = real])
    then have big: "real T + w \<le> 2 ^ 220"
      by (simp add: w)
    from S(1) r(1) one have "1 / 2 \<le> S + rnd w"
      by linarith
    moreover from S(2) r(2) big have "S + rnd w \<le> 2 * 2 ^ 220"
      by linarith
    ultimately show ?thesis
      by simp
  qed
  have "foldl (\<lambda>sum val. jsadd sum (jsmul val val)) (Num 0) (map (\<lambda>count. Num (real count)) (p @ [x]))
      = jsadd (Num S) (jsmul (Num (real x)) (Num (real x)))"
    by (simp add: ih)
  also have "\<dots> = jsadd (Num S) (double w)"
    by (simp add: w_def)
  also have "\<dots> = double (S + rnd w)"
    by (simp add: dw)
  also have "\<dots> = Num (rnd (S + rnd w))"
    by (rule double_safe [OF sr])
  also have "rnd (S + rnd w) = foldl (\<lambda>sum val. rnd (sum + rnd (real val * real val))) 0 (p @ [x])"
    by (simp add: S_def w_def)
  finally show ?case .
qed

lemma sum_list_bound:
  fixes f :: "'a \<Rightarrow> nat"
  assumes "\<forall>x \<in> set xs. f x \<le> b"
  shows "sum_list (map f xs) \<le> length xs * b"
  using assms by (induction xs) auto

lemma featureVector_entries:
  assumes t: "length t < 2 ^ 53" and x: "x \<in> set (featureVector (bigramFeatures L t))"
  shows "x \<le> 2 ^ 106"
proof -
  have "length t * length t \<le> 2 ^ 53 * 2 ^ 53"
    using t by (intro mult_mono) simp_all
  also have "\<dots> = (2::nat) ^ 106"
    by (simp only: power_add [symmetric]) simp
  finally show ?thesis
    using featureVector_bound [OF x] by simp
qed

lemma featureVector_squares:
  assumes t: "length t < 2 ^ 53"
  shows "(\<Sum>x\<leftarrow>featureVector (bigramFeatures L t). x * x) \<le> 2 ^ 220"
proof -
  have "\<forall>x \<in> set (featureVector (bigramFeatures L t)). x * x \<le> 2 ^ 106 * 2 ^ 106"
    using featureVector_entries [OF t] by (intro ballI mult_mono) simp_all
  then have "(\<Sum>x\<leftarrow>featureVector (bigramFeatures L t). x * x)
      \<le> length (featureVector (bigramFeatures L t)) * (2 ^ 106 * 2 ^ 106)"
    by (rule sum_list_bound)
  also have "\<dots> = 2 ^ 8 * (2 ^ 106 * 2 ^ 106)"
    by (simp only: length_featureVector) simp
  also have "\<dots> = (2::nat) ^ 220"
    by (simp only: power_add [symmetric]) simp
  finally show ?thesis .
qed

lemma embedding_rounded:
  fixes L :: "jsstring \<Rightarrow> jsstring" and t :: jsstring
  defines "v \<equiv> featureVector (bigramFeatures L t)"
  defines "M \<equiv> rnd (sqrt (foldl (\<lambda>sum val. rnd (sum + rnd (real val * real val))) 0 v))"
  assumes t: "length t < 2 ^ 53"
  shows "computeTextEmbedding_double L t =
    (if 0 < M then map (\<lambda>x. Num (rnd (real x / M))) v else map (\<lambda>x. Num (real x)) v)"
proof -
  define T where "T = (\<Sum>x\<leftarrow>v. x * x)"
  define F where "F = foldl (\<lambda>sum val. rnd (sum + rnd (real val * real val))) 0 v"
  have M: "M = rnd (sqrt F)"
    by (simp only: M_def F_def)
  have len: "length v \<le> 256"
    by (simp add: v_def length_featureVector)
  have T: "T \<le> 2 ^ 220"
    unfolding T_def v_def by (rule featureVector_squares [OF t])
  then have "real T \<le> real (2 ^ 220)"
    by (simp only: of_nat_le_iff)
  then have Tr: "real T \<le> 2 ^ 220"
    by simp
  from fold_double [OF len T [unfolded T_def]]
  have fold: "foldl (\<lambda>sum val. jsadd sum (jsmul val val)) (Num 0) (map (\<lambda>count. Num (real count)) v) = Num F"
    by (simp only: F_def)
  from fold_range [OF len] have F: "real T / 2 \<le> F" "F \<le> 2 * real T"
    by (simp_all only: T_def F_def)
  have F0: "0 \<le> F"
    using F(1) by simp
  have range: "sqrt F = 0 \<or> (1 / 2 \<le> sqrt F \<and> sqrt F \<le> 2 ^ 111)"
  proof (cases "T = 0")
    case True
    with F have "F = 0"
      by simp
    then show ?thesis
      by simp
  next
    case False
    then have "0 < T"
      by (rule neq0_conv [THEN iffD1])
    then have "1 \<le> T"
      by linarith
    then have "1 \<le> real T"
      by (simp only: of_nat_1 [symmetric, where 'a = real] of_nat_le_iff)
    with F(1) have "(1 / 2)\<^sup>2 \<le> F"
      by (simp add: power2_eq_square)
    then have "1 / 2 \<le> sqrt F"
      by (rule real_le_rsqrt)
    moreover have "F \<le> (2 ^ 111)\<^sup>2"
      using F(2) Tr by simp
    then have "sqrt F \<le> 2 ^ 111"
      by (intro real_le_lsqrt) simp_all
    ultimately show ?thesis
      by simp
  qed
  then have "sqrt F = 0 \<or> (1 / 2 ^ 200 \<le> sqrt F \<and> sqrt F \<le> 2 ^ 300)"
    by auto
  then have "double (sqrt F) = Num M"
    unfolding M by (rule double_safe)
  then have mag: "jssqrt (Num F) = Num M"
    using F0 by simp
  have gt: "jsgt (Num M) (Num 0) = (0 < M)"
    by simp
  show ?thesis
  proof (cases "0 < M")
    case False
    then show ?thesis
      unfolding computeTextEmbedding_double_def Let_def v_def [symmetric] fold mag gt by simp
  next
    case True
    have "sqrt F \<noteq> 0"
    proof
      assume "sqrt F = 0"
      with True show False
        by (simp add: M rnd_zero)
    qed
    with range have s: "1 / 2 \<le> sqrt F" "sqrt F \<le> 2 ^ 111"
      by simp_all
    have s0: "0 \<le> sqrt F"
      using F0 by simp
    from rnd_range [OF s0] s have Mr: "1 / 4 \<le> M" "M \<le> 2 ^ 112"
      unfolding M by simp_all
    have q: "jsdiv (Num (real x)) (Num M) = Num (rnd (real x / M))" if "x \<in> set v" for x
    proof -
      have "real x / M = 0 \<or> (1 / 2 ^ 200 \<le> real x / M \<and> real x / M \<le> 2 ^ 300)"
      proof (cases "x = 0")
        case True
        then show ?thesis
          by simp
      next
        case False
        then have "1 \<le> x"
          by simp
        then have x1: "1 \<le> real x"
          by (simp only: of_nat_1 [symmetric, where 'a = real] of_nat_le_iff)
        from that have "x \<le> 2 ^ 106"
          unfolding v_def by (rule featureVector_entries [OF t])
        then have "real x \<le> real (2 ^ 106)"
          by (simp only: of_nat_le_iff)
        then have x2: "real x \<le> 2 ^ 106"
          by simp
        have "(1::real) / 2 ^ 200 \<le> 1 / 2 ^ 112"
          by simp
        also have "\<dots> \<le> real x / M"
          using x1 Mr True by (intro frac_le) simp_all
        finally have lo: "1 / 2 ^ 200 \<le> real x / M" .
        have "real x / M \<le> 2 ^ 106 / (1 / 4)"
          using x2 Mr by (intro frac_le) simp_all
        also have "\<dots> \<le> 2 ^ 300"
          by simp
        finally have "real x / M \<le> 2 ^ 300" .
        with lo show ?thesis
          by (intro disjI2 conjI)
      qed
      then have "double (real x / M) = Num (rnd (real x / M))"
        by (rule double_safe)
      with True show ?thesis
        by simp
    qed
    have "map (\<lambda>v. jsdiv v (Num M)) (map (\<lambda>count. Num (real count)) v)
        = map (\<lambda>x. Num (rnd (real x / M))) v"
      using q by simp
    with True show ?thesis
      unfolding computeTextEmbedding_double_def Let_def v_def [symmetric] fold mag gt by simp
  qed
qed

lemma embedding_double_zero:
  assumes t: "length t < 2 ^ 53" and z: "featureVector (bigramFeatures L t) = replicate 256 0"
  shows "computeTextEmbedding_double L t = map Num (replicate 256 0)"
  unfolding embedding_rounded [OF t] z by (simp add: fold_zero rnd_zero)

lemma embedding_double_norm:
  assumes t: "length t < 2 ^ 53" and nz: "featureVector (bigramFeatures L t) \<noteq> replicate 256 0"
  shows "\<exists>es. computeTextEmbedding_double L t = map Num es \<and> length es = 256 \<and>
           \<bar>sqrt (\<Sum>x\<leftarrow>es. x * x) - 1\<bar> \<le> 1 / 2 ^ 43"
proof -
  define v where "v = featureVector (bigramFeatures L t)"
  define M where "M = rnd (sqrt (foldl (\<lambda>sum val. rnd (sum + rnd (real val * real val))) 0 v))"
  have len: "length v = 256"
    by (simp add: v_def length_featureVector)
  have sq: "(\<Sum>x\<leftarrow>v. x * x) \<noteq> 0"
    using nz unfolding v_def by (simp only: featureVector_zero_iff not_False_eq_True)
  from rounded_norm [OF len sq]
  have M0: "0 < M" and N: "\<bar>sqrt (\<Sum>x\<leftarrow>map (\<lambda>x. rnd (real x / M)) v. x * x) - 1\<bar> \<le> 1 / 2 ^ 43"
    by (simp_all only: M_def)
  have "computeTextEmbedding_double L t = map Num (map (\<lambda>x. rnd (real x / M)) v)"
    unfolding embedding_rounded [OF t] v_def [symmetric] M_def [symmetric] using M0 by simp
  with N len show ?thesis
    by (intro exI [of _ "map (\<lambda>x. rnd (real x / M)) v"]) simp
qed

text \<open>
  Without the guard the zero vector would be divided by zero.
\<close>

lemma jsdiv_zero: "jsdiv (Num 0) (Num 0) = NaN"
  by simp

text \<open>
  Claim C9, as amended. On doubles, for every text of fewer than \<open>2 ^ 53\<close> code units,
  which every string of the language is, and every lower-casing function, the
  embedding has 256 entries, all of them finite numbers. When the bigram feature
  vector is all zero, as for the empty string, the embedding is the all-zero vector:
  the guard \<open>magnitude > 0\<close> skips the division. Otherwise the Euclidean norm of the
  embedding is within \<open>2 powr - 43\<close> of 1; it need not be 1.
\<close>

theorem computeTextEmbedding_double_norm:
  assumes t: "length t < 2 ^ 53"
  shows "(\<exists>es. computeTextEmbedding_double L t = map Num es \<and> length es = 256 \<and>
      (featureVector (bigramFeatures L t) = replicate 256 0 \<longrightarrow> es = replicate 256 0) \<and>
      (featureVector (bigramFeatures L t) \<noteq> replicate 256 0 \<longrightarrow>
         \<bar>sqrt (\<Sum>x\<leftarrow>es. x * x) - 1\<bar> \<le> 1 / 2 ^ 43)) \<and>
   computeTextEmbedding_double L [] = map Num (replicate 256 0)"
proof
  show "\<exists>es. computeTextEmbedding_double L t = map Num es \<and> length es = 256 \<and>
      (featureVector (bigramFeatures L t) = replicate 256 0 \<longrightarrow> es = replicate 256 0) \<and>
      (featureVector (bigramFeatures L t) \<noteq> replicate 256 0 \<longrightarrow>
         \<bar>sqrt (\<Sum>x\<leftarrow>es. x * x) - 1\<bar> \<le> 1 / 2 ^ 43)"
  proof (cases "featureVector (bigramFeatures L t) = replicate 256 0")
    case True
    from embedding_double_zero [OF t True] True show ?thesis
      by (intro exI [of _ "replicate 256 0"]) simp
  next
    case False
    from embedding_double_norm [OF t False] False show ?thesis
      by blast
  qed
  have "featureVector (bigramFeatures L []) = replicate 256 0"
    by (simp add: bigramFeatures_short featureVector_Nil)
  then show "computeTextEmbedding_double L [] = map Num (replicate 256 0)"
    by (intro embedding_double_zero) simp_all
qed

section \<open>The embedding of a concrete text\<close>

lemma rnd_nat:
  assumes "n < 2 ^ 53"
  shows "rnd (real n) = real n"
proof (cases "n = 0")
  case True
  then show ?thesis
    by (simp add: rnd_zero)
next
  case False
  define x where "x = real n"
  define e where "e = \<lfloor>log 2 x\<rfloor>"
  have x1: "1 \<le> x"
    using False by (simp add: x_def)
  then have x0: "0 < x"
    by simp
  from binade [OF x0] have lo: "2 powr of_int e \<le> x" and hi: "x < 2 powr (of_int e + 1)"
    by (simp_all only: e_def)
  have "0 \<le> log 2 x"
    using x1 by simp
  then have e0: "0 \<le> e"
    by (simp add: e_def)
  have "(2::real) powr 53 = 2 ^ 53"
    using powr_realpow [of 2 53] by simp
  moreover have "x < 2 ^ 53"
    using assms by (simp add: x_def)
  ultimately have "x < 2 powr 53"
    by (simp only:)
  with lo have "2 powr of_int e < (2::real) powr 53"
    by linarith
  then have "real_of_int e < 53"
    by (rule powr_less_cancel) simp
  then have e52: "e \<le> 52"
    by linarith
  define k where "k = nat (52 - e)"
  have k: "52 - real_of_int e = real k"
    using e52 by (simp add: k_def)
  have pk: "2 powr (52 - real_of_int e) = 2 ^ k"
    by (simp only: k powr_realpow [of 2 k, simplified])
  have "x * 2 powr (52 - of_int e) = of_int (int n * 2 ^ k)"
    by (simp add: pk x_def)
  then have "\<bar>x * 2 powr (52 - of_int e) - of_int (int n * 2 ^ k)\<bar> < 1 / 2"
    by simp
  from rnd_eval [OF x0 lo hi this]
  have "rnd x = of_int (int n * 2 ^ k) * 2 powr (of_int e - 52)" .
  also have "of_int e - 52 = - real k"
    using k by linarith
  also have "of_int (int n * 2 ^ k) * 2 powr (- real k) = x * (2 ^ k * 2 powr (- real k))"
    by (simp add: x_def)
  also have "2 ^ k * 2 powr (- real k) = (1::real)"
    by (simp add: powr_minus powr_realpow)
  finally show ?thesis
    by (simp add: x_def)
qed

lemma fold_exact:
  "a + (\<Sum>x\<leftarrow>vs. x * x) < 2 ^ 53 \<Longrightarrow>
     foldl (\<lambda>sum val. rnd (sum + rnd (real val * real val))) (real a) vs
       = real (a + (\<Sum>x\<leftarrow>vs. x * x))"
proof (induction vs arbitrary: a)
  case Nil
  then show ?case
    by simp
next
  case (Cons x vs)
  have "x * x < 2 ^ 53" "a + x * x < 2 ^ 53"
    using Cons.prems by simp_all
  then have "rnd (real (x * x)) = real (x * x)" "rnd (real (a + x * x)) = real (a + x * x)"
    by (simp_all only: rnd_nat)
  then have "rnd (real a + rnd (real x * real x)) = real (a + x * x)"
    by simp
  moreover have "a + x * x + (\<Sum>x\<leftarrow>vs. x * x) < 2 ^ 53"
    using Cons.prems by simp
  ultimately show ?case
    using Cons.IH [of "a + x * x"] by simp
qed

lemma rnd_sqrt2: "rnd (sqrt 2) = 6369051672525773 / 4503599627370496"
proof -
  have lo: "2 powr of_int 0 \<le> sqrt 2"
    by simp
  have "sqrt 2 < 2"
    by (intro real_less_lsqrt) simp_all
  then have hi: "sqrt 2 < 2 powr (of_int 0 + 1)"
    by simp
  have s: "sqrt 2 * 9007199254740992 = sqrt 162259276829213363391578010288128"
  proof -
    have "sqrt 162259276829213363391578010288128 = sqrt (9007199254740992\<^sup>2 * 2)"
      by simp
    also have "\<dots> = 9007199254740992 * sqrt 2"
      by (rule sqrt_scaled) simp
    finally show ?thesis
      by simp
  qed
  have "(12738103345051545::real)\<^sup>2 < 162259276829213363391578010288128"
    by simp
  then have a: "12738103345051545 < sqrt 162259276829213363391578010288128"
    by (rule real_less_rsqrt)
  have "(162259276829213363391578010288128::real) < 12738103345051547\<^sup>2"
    by simp
  then have b: "sqrt 162259276829213363391578010288128 < 12738103345051547"
    by (intro real_less_lsqrt) simp_all
  from a b have "\<bar>sqrt 2 * 9007199254740992 - 12738103345051546\<bar> < 1"
    unfolding s [symmetric] by linarith
  then have "\<bar>sqrt 2 * 4503599627370496 - 6369051672525773\<bar> < 1 / 2"
    by linarith
  then have m: "\<bar>sqrt 2 * 2 powr (52 - of_int 0) - of_int 6369051672525773\<bar> < 1 / 2"
    by simp
  from rnd_eval [OF _ lo hi m] show ?thesis
    by (simp add: powr_minus)
qed

lemma rnd_recip:
  "rnd (1 / (6369051672525773 / 4503599627370496)) = 6369051672525772 / 9007199254740992"
proof -
  define x :: real where "x = 1 / (6369051672525773 / 4503599627370496)"
  have x0: "0 < x"
    by (simp add: x_def)
  have lo: "2 powr of_int (- 1) \<le> x"
    by (simp add: x_def powr_minus)
  have hi: "x < 2 powr (of_int (- 1) + 1)"
    by (simp add: x_def)
  have "x * 9007199254740992 = 40564819207303340847894502572032 / 6369051672525773"
    by (simp add: x_def)
  then have "\<bar>x * 9007199254740992 - 6369051672525772\<bar> < 1 / 2"
    by simp
  then have m: "\<bar>x * 2 powr (52 - of_int (- 1)) - of_int 6369051672525772\<bar> < 1 / 2"
    by simp
  from rnd_eval [OF x0 lo hi m] show ?thesis
    by (simp add: x_def powr_minus)
qed

lemma featureVector_abc:
  "featureVector (bigramFeatures asciiLower (js ''abc'')) = (replicate 256 0)[33 := 1, 65 := 1]"
proof -
  have f: "bigramFeatures asciiLower (js ''abc'') = [([97, 98], 1), ([98, 99], 1)]"
    by code_simp
  show ?thesis
  proof (rule nth_equalityI)
    show "length (featureVector (bigramFeatures asciiLower (js ''abc'')))
        = length ((replicate 256 (0::nat))[33 := 1, 65 := 1])"
      by (simp add: length_featureVector)
    fix k
    assume "k < length (featureVector (bigramFeatures asciiLower (js ''abc'')))"
    then have k: "k < 256"
      by (simp add: length_featureVector)
    have "featureVector (bigramFeatures asciiLower (js ''abc'')) ! k
        = (if 33 = k then 1 else 0) + (if 65 = k then 1 else 0)"
      unfolding featureVector_nth [OF k] f by (simp add: hashString_def hashStep_def)
    also have "\<dots> = (replicate 256 (0::nat))[33 := 1, 65 := 1] ! k"
      using k by (simp add: nth_list_update)
    finally show "featureVector (bigramFeatures asciiLower (js ''abc'')) ! k
        = (replicate 256 (0::nat))[33 := 1, 65 := 1] ! k" .
  qed
qed

lemma sum_list_update_real:
  "k < length xs \<Longrightarrow> sum_list (xs[k := x]) = sum_list xs + x - xs ! k" for xs :: "real list"
proof (induction xs arbitrary: k)
  case Nil
  then show ?case
    by simp
next
  case (Cons y ys)
  then show ?case
    by (cases k) simp_all
qed

lemma squares_two:
  "(\<Sum>x\<leftarrow>(replicate 256 0)[33 := d, 65 := d]. x * x) = 2 * (d * d)" for d :: real
  by (simp add: map_update sum_list_update_real sum_list_replicate)

lemma embedding_abc:
  "computeTextEmbedding_double asciiLower (js ''abc'')
     = map Num ((replicate 256 0)[33 := 6369051672525772 / 9007199254740992,
                                  65 := 6369051672525772 / 9007199254740992])"
proof -
  define v where "v = featureVector (bigramFeatures asciiLower (js ''abc''))"
  define M :: real where "M = 6369051672525773 / 4503599627370496"
  define d :: real where "d = 6369051672525772 / 9007199254740992"
  have t: "length (js ''abc'') < 2 ^ 53"
    by (simp add: js_def)
  have v: "v = (replicate 256 0)[33 := 1, 65 := 1]"
    by (simp only: v_def featureVector_abc)
  have "(\<Sum>x\<leftarrow>v. x * x) = 2"
    unfolding v by (simp add: map_update sum_list_update)
  with fold_exact [of 0 v]
  have "foldl (\<lambda>sum val. rnd (sum + rnd (real val * real val))) 0 v = 2"
    by simp
  then have M: "rnd (sqrt (foldl (\<lambda>sum val. rnd (sum + rnd (real val * real val))) 0 v)) = M"
    by (simp only: rnd_sqrt2 M_def)
  have M0: "0 < M"
    by (simp add: M_def)
  have r: "rnd (1 / M) = d"
    unfolding M_def d_def by (rule rnd_recip)
  have "computeTextEmbedding_double asciiLower (js ''abc'') = map (\<lambda>x. Num (rnd (real x / M))) v"
    unfolding embedding_rounded [OF t] v_def [symmetric] M using M0 by simp
  also have "\<dots> = map Num ((replicate 256 0)[33 := d, 65 := d])"
    unfolding v by (simp add: map_update r rnd_zero)
  finally show ?thesis
    by (simp only: d_def)
qed


text \<open>
  Claim C9 as stated fails. The text "abc" has the two bigrams "ab" and "bc", which
  fall into the buckets 33 and 65. The sum of the squares is 2, \<open>magnitude\<close> is the
  double \<open>6369051672525773 / 2 ^ 52\<close> nearest to the square root of 2, and both entries
  are the double \<open>6369051672525772 / 2 ^ 53\<close>, printed as 0.7071067811865475. The norm of
  this vector is less than 1.
\<close>

theorem computeTextEmbedding_double_norm_counterexample:
  "computeTextEmbedding_double asciiLower (js ''abc'')
     = map Num ((replicate 256 0)[33 := 6369051672525772 / 9007199254740992,
                                  65 := 6369051672525772 / 9007199254740992]) \<and>
   sqrt (\<Sum>x\<leftarrow>(replicate 256 0)[33 := 6369051672525772 / 9007199254740992,
        65 := 6369051672525772 / 9007199254740992]. x * x) < 1"
proof -
  have "sqrt (2 * (6369051672525772 / 9007199254740992 * (6369051672525772 / 9007199254740992))) < 1"
    by (intro real_less_lsqrt) simp_all
  then show ?thesis
    by (simp only: embedding_abc squares_two simp_thms)
qed

text \<open>
  The norm of the embedding of "abc" is within the bound, and the embedding of the
  empty string is the zero vector.
\<close>

theorem computeTextEmbedding_double_norm_witness:
  "length (js ''abc'') < 2 ^ 53 \<and>
   \<bar>sqrt (\<Sum>x\<leftarrow>(replicate 256 0)[33 := 6369051672525772 / 9007199254740992,
        65 := 6369051672525772 / 9007199254740992]. x * x) - 1\<bar> \<le> 1 / 2 ^ 43 \<and>
   computeTextEmbedding_double asciiLower [] = map Num (replicate 256 0)"
proof -
  have t: "length (js ''abc'') < 2 ^ 53"
    by (simp add: js_def)
  have nz: "featureVector (bigramFeatures asciiLower (js ''abc'')) \<noteq> replicate 256 0"
  proof
    assume "featureVector (bigramFeatures asciiLower (js ''abc'')) = replicate 256 0"
    then have "(replicate 256 (0::nat))[33 := 1, 65 := 1] ! 33 = replicate 256 0 ! 33"
      by (simp only: featureVector_abc)
    then show False
      by simp
  qed
  from computeTextEmbedding_double_norm [OF t, of asciiLower] nz
  obtain es where es: "computeTextEmbedding_double asciiLower (js ''abc'') = map Num es"
    and n: "\<bar>sqrt (\<Sum>x\<leftarrow>es. x * x) - 1\<bar> \<le> 1 / 2 ^ 43"
    by blast
  from es have "map Num es = map Num ((replicate 256 0)[33 := 6369051672525772 / 9007199254740992,
                                  65 := 6369051672525772 / 9007199254740992])"
    by (simp only: embedding_abc)
  then have "es = (replicate 256 0)[33 := 6369051672525772 / 9007199254740992,
                                  65 := 6369051672525772 / 9007199254740992]"
    by (rule map_injective) (simp add: inj_on_def)
  with n t computeTextEmbedding_double_norm [OF t, of asciiLower] show ?thesis
    by blast
qed

end
